theory Spec2Isabelle
  imports Main "HOL-Library.Multiset"
begin

section \<open>Strings\<close>

text \<open>
  A Python \<open>str\<close> is a sequence of Unicode code points, and \<open>len\<close>, slicing and
  \<open>find\<close> count code points. A string is therefore a list of code points here;
  \<open>py_str\<close> reads an ASCII literal.
\<close>

type_synonym str = "nat list"

definition py_str :: "string \<Rightarrow> str" where
  "py_str s = map of_char s"

text \<open>
  The slices \<open>s[:i]\<close> and \<open>s[i:]\<close>. Python never raises on a slice: an index beyond
  the end acts as the length, a negative index counts from the end, and one below
  \<open>-len(s)\<close> acts as 0 (\<open>nat\<close> of a negative integer is 0).
\<close>

definition slice_to :: "'a list \<Rightarrow> int \<Rightarrow> 'a list" where
  "slice_to s i = (if i < 0 then take (nat (int (length s) + i)) s else take (nat i) s)"

definition slice_from :: "'a list \<Rightarrow> int \<Rightarrow> 'a list" where
  "slice_from s i = (if i < 0 then drop (nat (int (length s) + i)) s else drop (nat i) s)"

section \<open>Data model (app\_state.py)\<close>

text \<open>
  The dataclass \<open>Entity\<close>. Its field \<open>text\<close> is \<open>etext\<close> here. The attributes
  \<open>paragraph_id\<close> and \<open>auto_detected\<close> are attached to an entity after its
  construction by the entities section, and read through \<open>hasattr\<close>: they are optional
  fields, \<open>None\<close> when the attribute is absent.
\<close>

record entity =
  etext :: str
  entity_type :: str
  start_pos :: int
  end_pos :: int
  anonymized :: bool
  replacement :: str
  paragraph_id :: "nat option"
  auto_detected :: "bool option"

text \<open>\<open>Entity(text, entity_type, start_pos, end_pos)\<close> with the defaults of the dataclass.\<close>

definition Entity :: "str \<Rightarrow> str \<Rightarrow> int \<Rightarrow> int \<Rightarrow> entity" where
  "Entity t ty s e =
     \<lparr>etext = t, entity_type = ty, start_pos = s, end_pos = e, anonymized = False,
      replacement = [], paragraph_id = None, auto_detected = None\<rparr>"

section \<open>The anonymizer (NLPService.anonymize\_text)\<close>

text \<open>
  \<open>sorted(xs, key=f, reverse=True)\<close>: descending keys, and the sort stays stable, so
  elements with equal keys keep their original order.
\<close>

definition sorted_reverse :: "('a \<Rightarrow> 'k::linorder) \<Rightarrow> 'a list \<Rightarrow> 'a list" where
  "sorted_reverse f xs = rev (sort_key f (rev xs))"

text \<open>\<open>entity.replacement or f"[{entity.entity_type}]"\<close>\<close>

definition replacement_or_default :: "entity \<Rightarrow> str" where
  "replacement_or_default e =
     (if replacement e = [] then py_str ''['' @ entity_type e @ py_str '']'' else replacement e)"

text \<open>The body of the loop: one splice into the working copy.\<close>

definition splice_entity :: "str \<Rightarrow> entity \<Rightarrow> str" where
  "splice_entity anonymized_text e =
     slice_to anonymized_text (start_pos e) @ replacement_or_default e
       @ slice_from anonymized_text (end_pos e)"

definition anonymize_text :: "str \<Rightarrow> entity list \<Rightarrow> str" where
  "anonymize_text txt entities =
     foldl (\<lambda>anonymized_text e. if anonymized e then splice_entity anonymized_text e else anonymized_text)
       txt (sorted_reverse start_pos entities)"

subsection \<open>What the anonymizer is to compute\<close>

text \<open>
  Offset validity of an entity against a text, as the specification states it:
  \<open>0 \<le> start_pos \<le> end_pos \<le> len(text)\<close>.
\<close>

definition valid_offsets :: "str \<Rightarrow> entity \<Rightarrow> bool" where
  "valid_offsets txt e \<longleftrightarrow>
     0 \<le> start_pos e \<and> start_pos e \<le> end_pos e \<and> end_pos e \<le> int (length txt)"

text \<open>Two half-open spans share no position.\<close>

definition disjoint_spans :: "entity \<Rightarrow> entity \<Rightarrow> bool" where
  "disjoint_spans a b \<longleftrightarrow> end_pos a \<le> start_pos b \<or> end_pos b \<le> start_pos a"

fun pairwise_disjoint :: "entity list \<Rightarrow> bool" where
  "pairwise_disjoint [] = True"
| "pairwise_disjoint (e # es) = (list_all (disjoint_spans e) es \<and> pairwise_disjoint es)"

text \<open>
  The reference result, read off the original text from left to right: for entities in
  ascending order of \<open>start_pos\<close>, the text between position \<open>k\<close> and the next span is
  kept, the span is replaced by its replacement, and the rest follows from the span's end.
  Every offset is an offset of the original text.
\<close>

fun replace_spans :: "nat \<Rightarrow> str \<Rightarrow> entity list \<Rightarrow> str" where
  "replace_spans k txt [] = drop k txt"
| "replace_spans k txt (e # es) =
     take (nat (start_pos e) - k) (drop k txt) @ replacement_or_default e
       @ replace_spans (nat (end_pos e)) txt es"

text \<open>
  Entities in ascending order that lie one after the other from position \<open>k\<close> on, within
  a text of length \<open>n\<close>: the shape of the sorted marked entities the proof works with.
\<close>

fun chain :: "nat \<Rightarrow> nat \<Rightarrow> entity list \<Rightarrow> bool" where
  "chain k n [] = (k \<le> n)"
| "chain k n (e # es) =
     (int k \<le> start_pos e \<and> start_pos e \<le> end_pos e \<and> chain (nat (end_pos e)) n es)"

text \<open>
  How a slice reads an index \<open>i\<close> of a sequence of length \<open>n\<close>: the position the
  index stands for, always within \<open>0..n\<close>.
\<close>

definition adjust_index :: "nat \<Rightarrow> int \<Rightarrow> int" where
  "adjust_index n i = (if i < 0 then max 0 (int n + i) else min i (int n))"

text \<open>
  One splice into the working copy \<open>t\<close> with both offsets of the entity adjusted into
  the bounds of \<open>t\<close>: the text up to the adjusted start, the replacement, and the text
  from the adjusted end on.
\<close>

definition splice_adjusted :: "str \<Rightarrow> entity \<Rightarrow> str" where
  "splice_adjusted t e =
     take (nat (adjust_index (length t) (start_pos e))) t @ replacement_or_default e
       @ drop (nat (adjust_index (length t) (end_pos e))) t"

section \<open>String operations of the standard library\<close>

text \<open>
  \<open>s.find(sub, start)\<close> for \<open>start \<ge> 0\<close>: the lowest index \<open>i \<ge> start\<close> at which
  \<open>sub\<close> occurs in \<open>s\<close>; \<open>None\<close> stands for the result \<open>-1\<close>.
\<close>

function str_find :: "'a list \<Rightarrow> 'a list \<Rightarrow> nat \<Rightarrow> nat option" where
  "str_find s sub i =
     (if length s < i + length sub then None
      else if take (length sub) (drop i s) = sub then Some i
      else str_find s sub (Suc i))"
  by pat_completeness auto
termination
  by (relation "measure (\<lambda>(s, sub, i). Suc (length s) - i)") auto

declare str_find.simps [simp del]

text \<open>\<open>sub in s\<close>\<close>

definition contains :: "'a list \<Rightarrow> 'a list \<Rightarrow> bool" where
  "contains s sub \<longleftrightarrow> str_find s sub 0 \<noteq> None"

text \<open>The slice \<open>s[a:b]\<close> for indices \<open>0 \<le> a \<le> b\<close>; it stops at the end of \<open>s\<close>.\<close>

definition slice :: "'a list \<Rightarrow> nat \<Rightarrow> nat \<Rightarrow> 'a list" where
  "slice s a b = take (b - a) (drop a s)"

text \<open>
  \<open>str.isspace\<close> of one code point: the white space of the Unicode database, which is
  what \<open>str.strip()\<close> removes and what \<open>\s\<close> matches in a \<open>str\<close> pattern.
\<close>

definition isspace :: "nat \<Rightarrow> bool" where
  "isspace c \<longleftrightarrow>
     (9 \<le> c \<and> c \<le> 13) \<or> (28 \<le> c \<and> c \<le> 32) \<or> c = 133 \<or> c = 160 \<or> c = 5760
     \<or> (8192 \<le> c \<and> c \<le> 8202) \<or> c = 8232 \<or> c = 8233 \<or> c = 8239 \<or> c = 8287
     \<or> c = 12288"

definition strip :: "str \<Rightarrow> str" where
  "strip s = rev (dropWhile isspace (rev (dropWhile isspace s)))"

text \<open>\<open>sep.join(xs)\<close>\<close>

fun join :: "'a list \<Rightarrow> 'a list list \<Rightarrow> 'a list" where
  "join sep [] = []"
| "join sep [x] = x"
| "join sep (x # y # ys) = x @ sep @ join sep (y # ys)"

text \<open>
  \<open>str.lower()\<close> is the case mapping of the Unicode database. The functions below take
  it as a parameter \<open>lower\<close>, so what is proved of them holds for the real mapping.
  \<open>lower_latin\<close> is that mapping on the code points up to U+00FF and on U+0130 (capital
  I with dot above, the one code point whose lower case is two code points); it is
  used at concrete inputs made of those code points.
\<close>

definition lower_code_point :: "nat \<Rightarrow> nat list" where
  "lower_code_point c =
     (if (65 \<le> c \<and> c \<le> 90) \<or> (192 \<le> c \<and> c \<le> 222 \<and> c \<noteq> 215) then [c + 32]
      else if c = 304 then [105, 775]
      else [c])"

definition lower_latin :: "str \<Rightarrow> str" where
  "lower_latin s = concat (map lower_code_point s)"

section \<open>Application state (app\_state.py)\<close>

text \<open>
  The dataclass \<open>Paragraph\<close>; its fields \<open>id\<close>, \<open>text\<close> and \<open>entities\<close> are \<open>par_id\<close>,
  \<open>ptext\<close> and \<open>par_entities\<close> here.
\<close>

record transcript_paragraph =
  par_id :: nat
  ptext :: str
  speaker :: str
  sentiment :: str
  par_entities :: "entity list"
  codes :: "str list"

text \<open>\<open>Paragraph(id=i, text=text)\<close> with the defaults of the dataclass.\<close>

definition Paragraph :: "nat \<Rightarrow> str \<Rightarrow> transcript_paragraph" where
  "Paragraph i t =
     \<lparr>par_id = i, ptext = t, speaker = py_str ''unknown'', sentiment = py_str ''neutral'',
      par_entities = [], codes = []\<rparr>"

text \<open>The fields of \<open>AppState\<close> that the entities section reads and writes.\<close>

record app_state =
  original_transcript :: str
  current_transcript :: str
  paragraphs :: "transcript_paragraph list"
  entities :: "entity list"

section \<open>The entities section (ui/components/entities.py)\<close>

text \<open>
  A call of \<open>ui.notify\<close> is the outcome a handler reports; the handlers below return
  it with the new state.
\<close>

datatype notice =
    Entity_text_empty
  | Already_exists str
  | Added_general str
  | Added_occurrences nat
  | Text_not_found
  | Exists_in_paragraph str nat
  | Added_in_paragraph str nat
  | No_entities_detected
  | None_marked
  | Anonymization_complete nat

datatype py_error = IndexError | Exception

subsection \<open>Bulk insertion: \_add\_entity\_without\_search\<close>

text \<open>\<open>replacement.strip() if replacement else f'[{entity_type}]'\<close>\<close>

definition manual_replacement :: "str \<Rightarrow> str \<Rightarrow> str" where
  "manual_replacement repl ety =
     (if repl \<noteq> [] then strip repl else py_str ''['' @ ety @ py_str '']'')"

text \<open>
  The entity the loop creates for the occurrence found at \<open>pos\<close> in paragraph \<open>i\<close>:
  \<open>actual_text = paragraph.text[pos:pos + len(entity_text_clean)]\<close> and
  \<open>end_pos = pos + len(actual_text)\<close>.
\<close>

definition occurrence_entity :: "str \<Rightarrow> str \<Rightarrow> str \<Rightarrow> str \<Rightarrow> nat \<Rightarrow> nat \<Rightarrow> entity" where
  "occurrence_entity txt entity_text_clean ety repl i pos =
     (let actual_text = slice txt pos (pos + length entity_text_clean);
          end_pos = pos + length actual_text
      in \<lparr>etext = actual_text, entity_type = ety, start_pos = int pos, end_pos = int end_pos,
          anonymized = False, replacement = manual_replacement repl ety,
          paragraph_id = Some i, auto_detected = Some False\<rparr>)"

text \<open>\<open>existing_occurrence\<close>: some entity has the paragraph index \<open>i\<close> and starts at \<open>pos\<close>.\<close>

definition existing_occurrence :: "entity list \<Rightarrow> nat \<Rightarrow> nat \<Rightarrow> bool" where
  "existing_occurrence es i pos \<longleftrightarrow>
     list_ex (\<lambda>e. paragraph_id e = Some i \<and> start_pos e = int pos) es"

lemma str_find_bounds:
  "str_find s sub i = Some p \<Longrightarrow> i \<le> p \<and> p + length sub \<le> length s"
proof (induction s sub i rule: str_find.induct)
  case (1 s sub i)
  show ?case
  proof (cases "length s < i + length sub \<or> take (length sub) (drop i s) = sub")
    case True
    with "1.prems" show ?thesis
      by (auto simp: str_find.simps [of s sub i] split: if_splits)
  next
    case False
    with "1.prems" have "str_find s sub (Suc i) = Some p"
      by (simp add: str_find.simps [of s sub i])
    with "1.IH" False show ?thesis by auto
  qed
qed

text \<open>
  The \<open>while True\<close> loop over one paragraph. \<open>text_lower\<close> and \<open>search_term_lower\<close> are
  computed before the loop; the state of the loop is the next start of the search, the
  entity list of the application and the counter \<open>entities_created\<close>.
\<close>

function occurrences_loop ::
  "str \<Rightarrow> str \<Rightarrow> str \<Rightarrow> str \<Rightarrow> str \<Rightarrow> str \<Rightarrow> nat \<Rightarrow> nat \<Rightarrow> entity list \<times> nat
     \<Rightarrow> entity list \<times> nat" where
  "occurrences_loop text_lower search_term_lower txt entity_text_clean ety repl i start
       (es, entities_created) =
     (case str_find text_lower search_term_lower start of
        None \<Rightarrow> (es, entities_created)
      | Some pos \<Rightarrow>
          if \<not> existing_occurrence es i pos
          then occurrences_loop text_lower search_term_lower txt entity_text_clean ety repl i
                 (pos + 1)
                 (es @ [occurrence_entity txt entity_text_clean ety repl i pos],
                  entities_created + 1)
          else occurrences_loop text_lower search_term_lower txt entity_text_clean ety repl i
                 (pos + 1) (es, entities_created))"
  by pat_completeness auto
termination
proof (relation "measure (\<lambda>(text_lower, _, _, _, _, _, _, start, _). Suc (length text_lower) - start)")
  show "wf (measure (\<lambda>(text_lower, _, _, _, _, _, _, start, _). Suc (length text_lower) - start))"
    by simp
qed (auto dest!: str_find_bounds)

declare occurrences_loop.simps [simp del]

text \<open>\<open>for i, paragraph in enumerate(self.app_state.paragraphs)\<close>, from index \<open>i\<close> on.\<close>

fun paragraphs_loop ::
  "(str \<Rightarrow> str) \<Rightarrow> str \<Rightarrow> str \<Rightarrow> str \<Rightarrow> nat \<Rightarrow> transcript_paragraph list \<Rightarrow> entity list \<times> nat
     \<Rightarrow> entity list \<times> nat" where
  "paragraphs_loop lower entity_text_clean ety repl i [] acc = acc"
| "paragraphs_loop lower entity_text_clean ety repl i (paragraph # ps) acc =
     paragraphs_loop lower entity_text_clean ety repl (Suc i) ps
       (occurrences_loop (lower (ptext paragraph)) (lower entity_text_clean) (ptext paragraph)
          entity_text_clean ety repl i 0 acc)"

text \<open>The general entity created when the text was found in no paragraph.\<close>

definition general_entity :: "str \<Rightarrow> str \<Rightarrow> str \<Rightarrow> entity" where
  "general_entity entity_text_clean ety repl =
     \<lparr>etext = entity_text_clean, entity_type = ety, start_pos = 0,
      end_pos = int (length entity_text_clean), anonymized = False,
      replacement = manual_replacement repl ety, paragraph_id = None,
      auto_detected = Some False\<rparr>"

definition add_entity_without_search ::
  "(str \<Rightarrow> str) \<Rightarrow> app_state \<Rightarrow> str \<Rightarrow> str \<Rightarrow> str \<Rightarrow> notice \<times> app_state" where
  "add_entity_without_search lower st entity_text ety repl =
     (if entity_text = [] \<or> strip entity_text = [] then (Entity_text_empty, st)
      else
        let entity_text_clean = strip entity_text in
        if list_ex (\<lambda>e. lower (etext e) = lower entity_text_clean) (entities st)
        then (Already_exists entity_text_clean, st)
        else
          let (es, entities_created) =
                paragraphs_loop lower entity_text_clean ety repl 0 (paragraphs st)
                  (entities st, 0)
          in if entities_created = 0
             then (Added_general entity_text_clean,
                   st\<lparr>entities := es @ [general_entity entity_text_clean ety repl]\<rparr>)
             else (Added_occurrences entities_created, st\<lparr>entities := es\<rparr>))"

subsection \<open>Single insertion from a search result\<close>

text \<open>An entry of \<open>matches\<close> in \<open>search_text\<close>.\<close>

record match =
  match_paragraph_id :: nat
  match_context :: str
  match_start_pos :: nat

text \<open>The search of the dialog, over the paragraphs from index \<open>i\<close> on.\<close>

fun search_paragraphs :: "(str \<Rightarrow> str) \<Rightarrow> str \<Rightarrow> nat \<Rightarrow> transcript_paragraph list \<Rightarrow> match list" where
  "search_paragraphs lower search_term i [] = []"
| "search_paragraphs lower search_term i (paragraph # ps) =
     (case str_find (lower (ptext paragraph)) (lower search_term) 0 of
        None \<Rightarrow> search_paragraphs lower search_term (Suc i) ps
      | Some start \<Rightarrow>
          (let context_start = start - 30;
               context_end = min (length (ptext paragraph)) (start + length search_term + 30)
           in \<lparr>match_paragraph_id = i,
               match_context = slice (ptext paragraph) context_start context_end,
               match_start_pos = start\<rparr>)
          # search_paragraphs lower search_term (Suc i) ps)"

definition search_text :: "(str \<Rightarrow> str) \<Rightarrow> transcript_paragraph list \<Rightarrow> str \<Rightarrow> match list" where
  "search_text lower ps input_value =
     (let search_term = strip input_value
      in if search_term = [] then [] else search_paragraphs lower search_term 0 ps)"

definition create_entity_from_match ::
  "(str \<Rightarrow> str) \<Rightarrow> app_state \<Rightarrow> str \<Rightarrow> str \<Rightarrow> str \<Rightarrow> match
     \<Rightarrow> py_error + notice \<times> app_state" where
  "create_entity_from_match lower st entity_text ety repl m =
     (let i = match_paragraph_id m in
      if length (paragraphs st) \<le> i then Inl IndexError
      else
        let paragraph = paragraphs st ! i in
        case str_find (lower (ptext paragraph)) (lower entity_text) 0 of
          None \<Rightarrow> Inr (Text_not_found, st)
        | Some start \<Rightarrow>
            let new = occurrence_entity (ptext paragraph) entity_text ety repl i start in
            if list_ex (\<lambda>e. paragraph_id e = Some i) (entities st)
            then Inr (Exists_in_paragraph (etext new) (i + 1), st)
            else Inr (Added_in_paragraph (etext new) (i + 1),
                      st\<lparr>entities := entities st @ [new]\<rparr>))"

subsection \<open>Applying the anonymization: \_apply\_anonymization\<close>

text \<open>
  \<open>hasattr(e, 'paragraph_id') and e.paragraph_id == paragraph.id\<close> selects the entities
  of a paragraph among the marked ones.
\<close>

definition has_paragraph_id :: "entity \<Rightarrow> bool" where
  "has_paragraph_id e \<longleftrightarrow> paragraph_id e \<noteq> None"

definition paragraph_entities :: "entity list \<Rightarrow> transcript_paragraph \<Rightarrow> entity list" where
  "paragraph_entities anonymized_entities paragraph =
     filter (\<lambda>e. has_paragraph_id e \<and> paragraph_id e = Some (par_id paragraph))
       anonymized_entities"

definition anonymize_paragraph :: "entity list \<Rightarrow> transcript_paragraph \<Rightarrow> transcript_paragraph" where
  "anonymize_paragraph anonymized_entities paragraph =
     (if paragraph_entities anonymized_entities paragraph \<noteq> []
      then paragraph\<lparr>ptext :=
             anonymize_text (ptext paragraph) (paragraph_entities anonymized_entities paragraph)\<rparr>
      else paragraph)"

definition apply_anonymization :: "app_state \<Rightarrow> notice \<times> app_state" where
  "apply_anonymization st =
     (if entities st = [] then (No_entities_detected, st)
      else
        let anonymized_entities = filter anonymized (entities st) in
        if anonymized_entities = [] then (None_marked, st)
        else
          let ps = map (anonymize_paragraph anonymized_entities) (paragraphs st)
          in (Anonymization_complete (length anonymized_entities),
              st\<lparr>paragraphs := ps,
                 current_transcript := join [10, 10] (map ptext ps),
                 entities := []\<rparr>))"

subsection \<open>What the insertions are to compute\<close>

text \<open>
  The search text occurs case-insensitively at position \<open>p\<close> of a paragraph text: the
  slice of the paragraph text of that length at \<open>p\<close> and the search text have the same
  lower case.
\<close>

definition occurs_ignoring_case :: "(str \<Rightarrow> str) \<Rightarrow> str \<Rightarrow> str \<Rightarrow> nat \<Rightarrow> bool" where
  "occurs_ignoring_case lower ptxt sub p \<longleftrightarrow>
     p + length sub \<le> length ptxt \<and> lower (slice ptxt p (p + length sub)) = lower sub"

text \<open>
  The positions of paragraph \<open>i\<close> a bulk insertion is to fill: those where the search
  text occurs case-insensitively in the paragraph text, but for the positions at which
  an entity of the list \<open>existing\<close> already has the pair (paragraph, start\_pos).
\<close>

definition claimed_positions ::
  "(str \<Rightarrow> str) \<Rightarrow> entity list \<Rightarrow> nat \<Rightarrow> str \<Rightarrow> str \<Rightarrow> nat list" where
  "claimed_positions lower existing i ptxt entity_text_clean =
     filter (\<lambda>pos. occurs_ignoring_case lower ptxt entity_text_clean pos
                \<and> \<not> existing_occurrence existing i pos)
       [0..<Suc (length ptxt)]"

text \<open>
  The entities a bulk insertion is to create: one for each such position, paragraph by
  paragraph and left to right, \<open>existing\<close> being the entities before the insertion.
\<close>

definition bulk_claimed :: "(str \<Rightarrow> str) \<Rightarrow> app_state \<Rightarrow> str \<Rightarrow> str \<Rightarrow> str \<Rightarrow> entity list" where
  "bulk_claimed lower st entity_text_clean ety repl =
     concat (map (\<lambda>(i, paragraph).
         map (occurrence_entity (ptext paragraph) entity_text_clean ety repl i)
           (claimed_positions lower (entities st) i (ptext paragraph) entity_text_clean))
       (enumerate 0 (paragraphs st)))"

subsection \<open>What the loops of the insertions compute\<close>

text \<open>\<open>sub\<close> occurs in \<open>s\<close> at position \<open>p\<close>.\<close>

definition occurs_at :: "'a list \<Rightarrow> 'a list \<Rightarrow> nat \<Rightarrow> bool" where
  "occurs_at s sub p \<longleftrightarrow> p + length sub \<le> length s \<and> take (length sub) (drop p s) = sub"

text \<open>All positions from \<open>i\<close> on at which \<open>sub\<close> occurs in \<open>s\<close>, ascending.\<close>

definition occurrences :: "'a list \<Rightarrow> 'a list \<Rightarrow> nat \<Rightarrow> nat list" where
  "occurrences s sub i = filter (occurs_at s sub) [i..<Suc (length s)]"

text \<open>
  The positions the loop over paragraph \<open>i\<close> visits and fills: the positions of the
  lowered paragraph text at which the lowered search text occurs, but for those at
  which an entity of \<open>existing\<close> already has the pair (paragraph, start\_pos). They are
  positions of \<open>paragraph.text.lower()\<close>, not of the paragraph text.
\<close>

definition new_positions :: "entity list \<Rightarrow> nat \<Rightarrow> str \<Rightarrow> str \<Rightarrow> nat list" where
  "new_positions existing i text_lower search_term_lower =
     filter (\<lambda>pos. \<not> existing_occurrence existing i pos)
       (occurrences text_lower search_term_lower 0)"

text \<open>
  The entities the loops create: for each of those positions the entity built from
  the paragraph text at that offset, paragraph by paragraph and left to right.
\<close>

definition bulk_created :: "(str \<Rightarrow> str) \<Rightarrow> app_state \<Rightarrow> str \<Rightarrow> str \<Rightarrow> str \<Rightarrow> entity list" where
  "bulk_created lower st entity_text_clean ety repl =
     concat (map (\<lambda>(i, paragraph).
         map (occurrence_entity (ptext paragraph) entity_text_clean ety repl i)
           (new_positions (entities st) i (lower (ptext paragraph)) (lower entity_text_clean)))
       (enumerate 0 (paragraphs st)))"

subsection \<open>States of the examples\<close>

text \<open>The example of the specification for the bulk insertion.\<close>

definition the_cat_state :: app_state where
  "the_cat_state =
     \<lparr>original_transcript = py_str ''The cat and the the dog'',
      current_transcript = py_str ''The cat and the the dog'',
      paragraphs = [Paragraph 0 (py_str ''The cat and the the dog'')],
      entities = []\<rparr>"

text \<open>Two paragraphs, and one entity \<open>Bob\<close> owned by the first.\<close>

definition two_bobs_state :: app_state where
  "two_bobs_state =
     \<lparr>original_transcript = py_str ''Bob left'' @ [10, 10] @ py_str ''Bob came'',
      current_transcript = py_str ''Bob left'' @ [10, 10] @ py_str ''Bob came'',
      paragraphs = [Paragraph 0 (py_str ''Bob left''), Paragraph 1 (py_str ''Bob came'')],
      entities = [occurrence_entity (py_str ''Bob left'') (py_str ''Bob'') (py_str ''PERSON'') [] 0 0]\<rparr>"

text \<open>One paragraph: twice U+0130 (capital I with dot above), then \<open>a\<close>.\<close>

definition dotted_state :: app_state where
  "dotted_state =
     \<lparr>original_transcript = [304, 304, 97], current_transcript = [304, 304, 97],
      paragraphs = [Paragraph 0 [304, 304, 97]], entities = []\<rparr>"

text \<open>One paragraph: U+0130 (capital I with dot above), then \<open>ab\<close>.\<close>

definition dotted_ab_state :: app_state where
  "dotted_ab_state =
     \<lparr>original_transcript = [304, 97, 98], current_transcript = [304, 97, 98],
      paragraphs = [Paragraph 0 [304, 97, 98]], entities = []\<rparr>"

section \<open>Segmentation (AppState.\_split\_into\_paragraphs)\<close>

text \<open>
  \<open>s.split(sep)\<close> for the separator \<open>sep = c # cs\<close>: the pieces of \<open>s\<close> between the
  occurrences of \<open>sep\<close>, found from left to right without overlap. The separator is
  given by its first code point and its rest, so it is never empty (Python raises
  \<open>ValueError\<close> on an empty separator; the source passes literals).
\<close>

function str_split :: "'a list \<Rightarrow> 'a \<Rightarrow> 'a list \<Rightarrow> 'a list list" where
  "str_split s c cs =
     (case str_find s (c # cs) 0 of
        None \<Rightarrow> [s]
      | Some p \<Rightarrow> take p s # str_split (drop (p + length (c # cs)) s) c cs)"
  by pat_completeness auto
termination
proof (relation "measure (\<lambda>(s, c, cs). length s)")
  show "wf (measure (\<lambda>(s, c, cs). length s))" by simp
next
  fix s :: "'a list" and c cs p
  assume "str_find s (c # cs) 0 = Some p"
  from str_find_bounds [OF this] have "p + length (c # cs) \<le> length s" by simp
  then show "((drop (p + length (c # cs)) s, c, cs), (s, c, cs)) \<in> measure (\<lambda>(s, c, cs). length s)"
    by simp
qed

declare str_split.simps [simp del]

text \<open>
  \<open>re.split\<close> with a pattern that matches the non-empty runs of the code points in \<open>P\<close>,
  as \<open>[.!?]+\<close> does: the pieces between the maximal runs.
\<close>

function re_split_runs :: "('a \<Rightarrow> bool) \<Rightarrow> 'a list \<Rightarrow> 'a list list" where
  "re_split_runs P s =
     (case dropWhile (\<lambda>x. \<not> P x) s of
        [] \<Rightarrow> [s]
      | _ # rest \<Rightarrow> takeWhile (\<lambda>x. \<not> P x) s # re_split_runs P (dropWhile P rest))"
  by pat_completeness auto
termination
proof (relation "measure (\<lambda>(P, s). length s)")
  show "wf (measure (\<lambda>(P, s). length s))" by simp
next
  fix P :: "'a \<Rightarrow> bool" and s x rest
  assume a: "dropWhile (\<lambda>x. \<not> P x) s = x # rest"
  have "length (dropWhile P rest) \<le> length rest" by (rule length_dropWhile_le)
  also have "\<dots> < length (dropWhile (\<lambda>x. \<not> P x) s)" by (simp add: a)
  also have "\<dots> \<le> length s" by (rule length_dropWhile_le)
  finally show "((P, dropWhile P rest), (P, s)) \<in> measure (\<lambda>(P, s). length s)" by simp
qed

declare re_split_runs.simps [simp del]

text \<open>The code points of \<open>[.!?]\<close>.\<close>

definition sentence_end :: "nat \<Rightarrow> bool" where
  "sentence_end c \<longleftrightarrow> c = 46 \<or> c = 33 \<or> c = 63"

text \<open>
  The lookahead \<open>(?=\s+[A-Z])\<close> on the rest of the text: white space, at least one, and
  then a capital letter of \<open>A\<close> to \<open>Z\<close>.
\<close>

definition space_then_capital :: "str \<Rightarrow> bool" where
  "space_then_capital rest \<longleftrightarrow>
     takeWhile isspace rest \<noteq> [] \<and>
     (case dropWhile isspace rest of [] \<Rightarrow> False | d # _ \<Rightarrow> 65 \<le> d \<and> d \<le> 90)"

text \<open>\<open>re.split(r'\.(?=\s+[A-Z])', s)\<close>: split at every period that the lookahead follows.\<close>

fun split_period_capital :: "str \<Rightarrow> str list" where
  "split_period_capital [] = [[]]"
| "split_period_capital (c # rest) =
     (if c = 46 \<and> space_then_capital rest then [] # split_period_capital rest
      else case split_period_capital rest of
             [] \<Rightarrow> [[c]]
           | piece # pieces \<Rightarrow> (c # piece) # pieces)"

text \<open>\<open>[p.strip() for p in pieces if p.strip()]\<close>\<close>

definition stripped_units :: "str list \<Rightarrow> str list" where
  "stripped_units pieces = map strip (filter (\<lambda>p. strip p \<noteq> []) pieces)"

text \<open>The three strategies.\<close>

definition split_blank_lines :: "str \<Rightarrow> str list" where
  "split_blank_lines content = stripped_units (str_split content 10 [10])"

definition split_lines :: "str \<Rightarrow> str list" where
  "split_lines content = stripped_units (str_split content 10 [])"

definition split_sentences :: "str \<Rightarrow> str list" where
  "split_sentences content = stripped_units (re_split_runs sentence_end content)"

text \<open>The \<open>if\<close>/\<open>elif\<close>/\<open>else\<close> that chooses the strategy.\<close>

definition primary_split :: "str \<Rightarrow> str list" where
  "primary_split content =
     (if contains content [10, 10] then split_blank_lines content
      else if contains content [10] then split_lines content
      else split_sentences content)"

text \<open>\<open>s.endswith('.')\<close>\<close>

definition ends_with_period :: "str \<Rightarrow> bool" where
  "ends_with_period s \<longleftrightarrow> s \<noteq> [] \<and> last s = 46"

text \<open>The second pass over a single long paragraph.\<close>

definition refine_long_paragraph :: "str list \<Rightarrow> str list" where
  "refine_long_paragraph paragraphs_text =
     (if length paragraphs_text = 1 \<and> 500 < length (paragraphs_text ! 0) then
        let sentences = split_period_capital (paragraphs_text ! 0)
        in if 1 < length sentences
           then map (\<lambda>s. if \<not> ends_with_period s then strip s @ [46] else strip s)
                  (filter (\<lambda>s. strip s \<noteq> []) sentences)
           else paragraphs_text
      else paragraphs_text)"

definition split_into_paragraphs :: "str \<Rightarrow> transcript_paragraph list" where
  "split_into_paragraphs content =
     map (\<lambda>(i, t). Paragraph i t) (enumerate 0 (refine_long_paragraph (primary_split content)))"

subsection \<open>The cascade of the specification\<close>

text \<open>
  The specification's wording: the strategies in order, stopping at the first that
  yields at least one non-empty unit.
\<close>

definition first_yielding_strategy :: "str \<Rightarrow> str list" where
  "first_yielding_strategy content =
     (if split_blank_lines content \<noteq> [] then split_blank_lines content
      else if split_lines content \<noteq> [] then split_lines content
      else split_sentences content)"

text \<open>
  The same cascade where a strategy is tried only if its delimiter occurs in the text.
\<close>

definition first_applicable_yielding_strategy :: "str \<Rightarrow> str list" where
  "first_applicable_yielding_strategy content =
     (if contains content [10, 10] \<and> split_blank_lines content \<noteq> []
      then split_blank_lines content
      else if contains content [10] \<and> split_lines content \<noteq> [] then split_lines content
      else split_sentences content)"

section \<open>Entity detection (NLPService.extract\_entities)\<close>

subsection \<open>The regular expressions of the fallback\<close>

text \<open>
  The syntax of the patterns. The engine that matches them is the standard library's
  \<open>re\<close>; the functions below take \<open>re.finditer(pattern, text, re.IGNORECASE)\<close> as a
  parameter \<open>finditer\<close>, which returns the span \<open>(match.start(), match.end())\<close> of every
  match in the order found. \<open>match.group()\<close> is the slice of the text at that span.
\<close>

datatype regex =
    Lit str
  | Char_range nat nat
  | Digit
  | Whitespace
  | Word_boundary
  | One_of "regex list"
  | Sequence "regex list"
  | Alt "regex list"
  | Repeat nat "nat option" regex

definition cp :: "char \<Rightarrow> nat" where
  "cp c = of_char c"

definition zero_or_more :: "regex \<Rightarrow> regex" where
  "zero_or_more r = Repeat 0 None r"

definition one_or_more :: "regex \<Rightarrow> regex" where
  "one_or_more r = Repeat 1 None r"

definition optional :: "regex \<Rightarrow> regex" where
  "optional r = Repeat 0 (Some 1) r"

definition upper_AZ :: regex where
  "upper_AZ = Char_range (cp CHR ''A'') (cp CHR ''Z'')"

definition lower_az :: regex where
  "lower_az = Char_range (cp CHR ''a'') (cp CHR ''z'')"

definition digit_09 :: regex where
  "digit_09 = Char_range (cp CHR ''0'') (cp CHR ''9'')"

definition separator :: regex where
  "separator = One_of [Lit (py_str ''/''), Lit (py_str ''-'')]"

definition phone_separator :: regex where
  "phone_separator = optional (One_of [Lit (py_str ''-''), Lit (py_str ''.''), Whitespace])"

definition capitalized :: regex where
  "capitalized = Sequence [upper_AZ, one_or_more lower_az]"

definition month :: regex where
  "month = Alt (map (\<lambda>m. Lit (py_str m))
     [''Jan'', ''Feb'', ''Mar'', ''Apr'', ''May'', ''Jun'', ''Jul'', ''Aug'', ''Sep'', ''Oct'',
      ''Nov'', ''Dec''])"

definition email_local :: regex where
  "email_local = One_of [upper_AZ, lower_az, digit_09, Lit (py_str ''.''), Lit (py_str ''_''),
     Lit (py_str ''%''), Lit (py_str ''+''), Lit (py_str ''-'')]"

definition email_domain :: regex where
  "email_domain = One_of [upper_AZ, lower_az, digit_09, Lit (py_str ''.''), Lit (py_str ''-'')]"

text \<open>The dictionary \<open>patterns\<close>, in its insertion order.\<close>

definition patterns :: "(str \<times> regex) list" where
  "patterns =
     [(py_str ''PERSON'',
        Sequence [Word_boundary, capitalized, zero_or_more (Sequence [one_or_more Whitespace, capitalized]),
             Word_boundary]),
      (py_str ''DATE'',
        Sequence [Word_boundary,
             Alt [Sequence [Repeat 1 (Some 2) Digit, separator, Repeat 1 (Some 2) Digit, separator,
                       Repeat 2 (Some 4) Digit],
                  Sequence [Repeat 4 (Some 4) Digit, separator, Repeat 1 (Some 2) Digit, separator,
                       Repeat 1 (Some 2) Digit],
                  Sequence [month, zero_or_more lower_az, one_or_more Whitespace, Repeat 1 (Some 2) Digit,
                       optional (Lit (py_str '','')), one_or_more Whitespace, Repeat 4 (Some 4) Digit]],
             Word_boundary]),
      (py_str ''TIME'',
        Sequence [Word_boundary, Repeat 1 (Some 2) Digit, Lit (py_str '':''), Repeat 2 (Some 2) Digit,
             optional (Sequence [Lit (py_str '':''), Repeat 2 (Some 2) Digit]),
             optional (Sequence [zero_or_more Whitespace,
                       One_of [Lit (py_str ''A''), Lit (py_str ''a''), Lit (py_str ''P''),
                               Lit (py_str ''p'')],
                       One_of [Lit (py_str ''M''), Lit (py_str ''m'')]]),
             Word_boundary]),
      (py_str ''PHONE'',
        Sequence [Word_boundary,
             optional (Sequence [optional (Lit (py_str ''+'')), Lit (py_str ''1''), phone_separator]),
             optional (Lit (py_str ''('')), Repeat 3 (Some 3) digit_09, optional (Lit (py_str '')'')),
             phone_separator, Repeat 3 (Some 3) digit_09, phone_separator,
             Repeat 4 (Some 4) digit_09, Word_boundary]),
      (py_str ''EMAIL'',
        Sequence [Word_boundary, one_or_more email_local, Lit (py_str ''@''), one_or_more email_domain,
             Lit (py_str ''.''),
             Repeat 2 None (One_of [upper_AZ, Lit (py_str ''|''), lower_az]), Word_boundary]),
      (py_str ''MONEY'',
        Sequence [Lit (py_str ''$''), one_or_more Digit,
             zero_or_more (Sequence [Lit (py_str '',''), Repeat 3 (Some 3) Digit]),
             optional (Sequence [Lit (py_str ''.''), Repeat 2 (Some 2) Digit])]),
      (py_str ''PERCENT'',
        Sequence [one_or_more Digit, optional (Sequence [Lit (py_str ''.''), one_or_more Digit]), Lit (py_str ''%'')])]"

text \<open>The common words a PERSON match is dropped for.\<close>

definition common_words :: "str list" where
  "common_words = map py_str
     [''the'', ''and'', ''but'', ''for'', ''with'', ''this'', ''that'', ''they'', ''them'',
      ''their'']"

definition regex_matches ::
  "(str \<Rightarrow> str) \<Rightarrow> str \<Rightarrow> str \<Rightarrow> (nat \<times> nat) list \<Rightarrow> entity list" where
  "regex_matches lower txt ety matches =
     map (\<lambda>(start, end). Entity (slice txt start end) ety (int start) (int end))
       (filter (\<lambda>(start, end).
            \<not> (ety = py_str ''PERSON'' \<and> lower (slice txt start end) \<in> set common_words))
          matches)"

definition extract_entities_regex ::
  "(str \<Rightarrow> str) \<Rightarrow> (regex \<Rightarrow> str \<Rightarrow> (nat \<times> nat) list) \<Rightarrow> str \<Rightarrow> entity list" where
  "extract_entities_regex lower finditer txt =
     concat (map (\<lambda>(ety, pattern). regex_matches lower txt ety (finditer pattern txt)) patterns)"

subsection \<open>The Stanza path\<close>

text \<open>
  An entity of a Stanza document: \<open>text\<close>, \<open>type\<close>, \<open>start_char\<close>, \<open>end_char\<close>. A document
  is the list of its sentences, each the list of its entities. A pipeline maps a text to a
  document or raises; \<open>Inl\<close> stands for an exception raised anywhere inside the
  \<open>try\<close> block of \<open>extract_entities\<close>, the call of the pipeline and the reading of its
  result alike.
\<close>

type_synonym stanza_entity = "str \<times> str \<times> int \<times> int"

type_synonym stanza_doc = "stanza_entity list list"

type_synonym pipeline = "str \<Rightarrow> py_error + stanza_doc"

definition map_stanza_entity_type :: "str \<Rightarrow> str" where
  "map_stanza_entity_type stanza_type =
     (case map_of
        [(py_str ''PERSON'', py_str ''PERSON''), (py_str ''PER'', py_str ''PERSON''),
         (py_str ''ORG'', py_str ''ORGANIZATION''),
         (py_str ''ORGANIZATION'', py_str ''ORGANIZATION''),
         (py_str ''GPE'', py_str ''LOCATION''), (py_str ''LOCATION'', py_str ''LOCATION''),
         (py_str ''LOC'', py_str ''LOCATION''), (py_str ''DATE'', py_str ''DATE''),
         (py_str ''TIME'', py_str ''TIME''), (py_str ''MONEY'', py_str ''MONEY''),
         (py_str ''PERCENT'', py_str ''PERCENT''), (py_str ''PHONE'', py_str ''PHONE''),
         (py_str ''EMAIL'', py_str ''EMAIL''), (py_str ''MISC'', py_str ''MISC'')]
        stanza_type of
        None \<Rightarrow> stanza_type
      | Some t \<Rightarrow> t)"

text \<open>
  The instance attributes of \<open>NLPService\<close>, its class attributes, and the two attempts to
  construct a pipeline (\<open>stanza.Pipeline\<close> without download, then \<open>stanza.download\<close>
  followed by \<open>stanza.Pipeline\<close>), each of which returns a pipeline or raises.
\<close>

record nlp_service =
  nlp_pipeline :: "pipeline option"
  stanza_initialized :: bool

record nlp_shared =
  shared_pipeline :: "pipeline option"
  shared_initialized :: bool

record stanza_env =
  pipeline_offline :: "py_error + pipeline"
  pipeline_after_download :: "py_error + pipeline"

definition initialize_stanza ::
  "stanza_env \<Rightarrow> nlp_service \<times> nlp_shared \<Rightarrow> nlp_service \<times> nlp_shared" where
  "initialize_stanza env = (\<lambda>(svc, sh).
     if stanza_initialized svc \<or> shared_initialized sh then
       (if shared_pipeline sh \<noteq> None
        then (svc\<lparr>nlp_pipeline := shared_pipeline sh, stanza_initialized := True\<rparr>, sh)
        else (svc, sh))
     else
       let sh = sh\<lparr>shared_initialized := True\<rparr>;
           svc = svc\<lparr>stanza_initialized := True\<rparr>
       in case pipeline_offline env of
            Inr p \<Rightarrow> (svc\<lparr>nlp_pipeline := Some p\<rparr>, sh\<lparr>shared_pipeline := Some p\<rparr>)
          | Inl _ \<Rightarrow>
              (case pipeline_after_download env of
                 Inr p \<Rightarrow> (svc\<lparr>nlp_pipeline := Some p\<rparr>, sh\<lparr>shared_pipeline := Some p\<rparr>)
               | Inl _ \<Rightarrow> (svc\<lparr>nlp_pipeline := None\<rparr>, sh\<lparr>shared_pipeline := None\<rparr>)))"

text \<open>\<open>if not self._stanza_initialized: self._initialize_stanza()\<close>\<close>

definition ensure_initialized ::
  "stanza_env \<Rightarrow> nlp_service \<times> nlp_shared \<Rightarrow> nlp_service \<times> nlp_shared" where
  "ensure_initialized env s =
     (if \<not> stanza_initialized (fst s) then initialize_stanza env s else s)"

definition stanza_entities :: "stanza_doc \<Rightarrow> entity list" where
  "stanza_entities doc =
     map (\<lambda>(t, ty, start_char, end_char). Entity t (map_stanza_entity_type ty) start_char end_char)
       (concat doc)"

text \<open>
  The result of \<open>extract_entities\<close> with the state it leaves. \<open>Inl\<close> would be an exception
  that reaches the caller.
\<close>

definition extract_entities ::
  "stanza_env \<Rightarrow> (str \<Rightarrow> str) \<Rightarrow> (regex \<Rightarrow> str \<Rightarrow> (nat \<times> nat) list)
     \<Rightarrow> nlp_service \<times> nlp_shared \<Rightarrow> str
     \<Rightarrow> (py_error + entity list) \<times> (nlp_service \<times> nlp_shared)" where
  "extract_entities env lower finditer s txt =
     (let s' = ensure_initialized env s
      in case nlp_pipeline (fst s') of
           Some p \<Rightarrow>
             (case p txt of
                Inr doc \<Rightarrow> (Inr (stanza_entities doc), s')
              | Inl _ \<Rightarrow> (Inr (extract_entities_regex lower finditer txt), s'))
         | None \<Rightarrow> (Inr (extract_entities_regex lower finditer txt), s'))"

text \<open>
  The recognizer is unavailable (no pipeline after the initialization) or raises on
  the text.
\<close>

definition recognizer_fails :: "stanza_env \<Rightarrow> nlp_service \<times> nlp_shared \<Rightarrow> str \<Rightarrow> bool" where
  "recognizer_fails env s txt \<longleftrightarrow>
     (case nlp_pipeline (fst (ensure_initialized env s)) of
        None \<Rightarrow> True
      | Some p \<Rightarrow> isl (p txt))"

subsection \<open>Inputs of the examples\<close>

text \<open>Both attempts to construct a pipeline raise.\<close>

definition failing_env :: stanza_env where
  "failing_env = \<lparr>pipeline_offline = Inl Exception, pipeline_after_download = Inl Exception\<rparr>"

text \<open>A pipeline is constructed, and it raises on every text.\<close>

definition raising_env :: stanza_env where
  "raising_env =
     \<lparr>pipeline_offline = Inr (\<lambda>txt. Inl Exception), pipeline_after_download = Inl Exception\<rparr>"

text \<open>The state of a first \<open>NLPService()\<close>.\<close>

definition fresh_service :: "nlp_service \<times> nlp_shared" where
  "fresh_service =
     (\<lparr>nlp_pipeline = None, stanza_initialized = False\<rparr>,
      \<lparr>shared_pipeline = None, shared_initialized = False\<rparr>)"

text \<open>
  The spans \<open>re.finditer(pattern, text, re.IGNORECASE)\<close> returns for the patterns of
  the fallback on two texts. On \<open>Alice met Bob\<close> the PERSON pattern, which ignores case,
  matches the whole text once, at 0 to 13, and no other pattern matches. On
  \<open>the 50%\<close> the PERSON pattern matches \<open>the\<close> at 0 to 3, the PERCENT pattern matches
  at 4 to 7, and no other pattern matches. This table stands for the engine at these
  two texts only.
\<close>

definition example_finditer :: "regex \<Rightarrow> str \<Rightarrow> (nat \<times> nat) list" where
  "example_finditer pattern txt =
     (if txt = py_str ''Alice met Bob'' \<and> pattern = snd (patterns ! 0) then [(0, 13)]
      else if txt = py_str ''the 50%'' \<and> pattern = snd (patterns ! 0) then [(0, 3)]
      else if txt = py_str ''the 50%'' \<and> pattern = snd (patterns ! 6) then [(4, 7)]
      else [])"

section \<open>Properties of the anonymizer\<close>

lemma foldl_marked_only:
  "foldl (\<lambda>t e. if anonymized e then splice_entity t e else t) t es
     = foldl splice_entity t (filter anonymized es)"
  by (induction es arbitrary: t) simp_all

lemma filter_sorted_reverse:
  "filter P (sorted_reverse f xs) = sorted_reverse f (filter P xs)"
  by (simp add: sorted_reverse_def rev_filter [symmetric] filter_sort)

lemma anonymize_text_marked:
  "anonymize_text txt es = foldl splice_entity txt (sorted_reverse start_pos (filter anonymized es))"
  by (simp add: anonymize_text_def foldl_marked_only filter_sorted_reverse)

text \<open>
  Claim C6. The entities that are present but not marked never alter the output:
  \<open>anonymize_text\<close> returns what it returns for the marked entities alone. With no
  entity marked (an empty list, or every flag false) it returns the paragraph text
  unchanged.
\<close>

theorem anonymize_text_unmarked:
  "anonymize_text txt es = anonymize_text txt (filter anonymized es)
   \<and> ((\<forall>e \<in> set es. \<not> anonymized e) \<longrightarrow> anonymize_text txt es = txt)"
proof
  show "anonymize_text txt es = anonymize_text txt (filter anonymized es)"
    by (simp add: anonymize_text_marked)
next
  show "(\<forall>e \<in> set es. \<not> anonymized e) \<longrightarrow> anonymize_text txt es = txt"
  proof
    assume "\<forall>e \<in> set es. \<not> anonymized e"
    then have "filter anonymized es = []"
      by (simp add: filter_empty_conv)
    then show "anonymize_text txt es = txt"
      by (simp add: anonymize_text_marked sorted_reverse_def)
  qed
qed

theorem anonymize_text_unmarked_witness:
  "anonymize_text (py_str ''Alice met Bob'')
     [Entity (py_str ''Alice'') (py_str ''PERSON'') 0 5,
      (Entity (py_str ''Bob'') (py_str ''PERSON'') 10 13)\<lparr>anonymized := True\<rparr>]
   = anonymize_text (py_str ''Alice met Bob'')
       [(Entity (py_str ''Bob'') (py_str ''PERSON'') 10 13)\<lparr>anonymized := True\<rparr>]
   \<and> anonymize_text (py_str ''Alice met Bob'')
       [Entity (py_str ''Alice'') (py_str ''PERSON'') 0 5,
        Entity (py_str ''Bob'') (py_str ''PERSON'') 10 13]
     = py_str ''Alice met Bob''"
proof -
  have mixed: "anonymize_text (py_str ''Alice met Bob'')
       [Entity (py_str ''Alice'') (py_str ''PERSON'') 0 5,
        (Entity (py_str ''Bob'') (py_str ''PERSON'') 10 13)\<lparr>anonymized := True\<rparr>]
     = anonymize_text (py_str ''Alice met Bob'')
         [(Entity (py_str ''Bob'') (py_str ''PERSON'') 10 13)\<lparr>anonymized := True\<rparr>]"
    using conjunct1 [OF anonymize_text_unmarked
      [of "py_str ''Alice met Bob''"
          "[Entity (py_str ''Alice'') (py_str ''PERSON'') 0 5,
            (Entity (py_str ''Bob'') (py_str ''PERSON'') 10 13)\<lparr>anonymized := True\<rparr>]"]]
    by (simp add: Entity_def)
  have none: "anonymize_text (py_str ''Alice met Bob'')
       [Entity (py_str ''Alice'') (py_str ''PERSON'') 0 5,
        Entity (py_str ''Bob'') (py_str ''PERSON'') 10 13]
     = py_str ''Alice met Bob''"
    using conjunct2 [OF anonymize_text_unmarked
      [of "py_str ''Alice met Bob''"
          "[Entity (py_str ''Alice'') (py_str ''PERSON'') 0 5,
            Entity (py_str ''Bob'') (py_str ''PERSON'') 10 13]"]]
    by (simp add: Entity_def)
  from mixed none show ?thesis by (rule conjI)
qed

lemma anonymize_text_mixed_example:
  "anonymize_text (py_str ''Alice met Bob'')
     [Entity (py_str ''Alice'') (py_str ''PERSON'') 0 5,
      (Entity (py_str ''Bob'') (py_str ''PERSON'') 10 13)\<lparr>anonymized := True\<rparr>]
   = py_str ''Alice met [PERSON]''"
  by (simp add: anonymize_text_def sorted_reverse_def splice_entity_def slice_to_def
      slice_from_def replacement_or_default_def Entity_def py_str_def)

lemma chain_le: "chain k n es \<Longrightarrow> k \<le> n"
proof (induction es arbitrary: k)
  case Nil
  then show ?case by simp
next
  case (Cons e es)
  from Cons.prems have "chain (nat (end_pos e)) n es" and "int k \<le> end_pos e"
    by auto
  with Cons.IH [of "nat (end_pos e)"] show ?case by linarith
qed

lemma foldr_splice_chain:
  "chain k (length txt) es \<Longrightarrow>
     foldr (\<lambda>e t. splice_entity t e) es txt = take k txt @ replace_spans k txt es"
proof (induction es arbitrary: k)
  case Nil
  then show ?case by simp
next
  case (Cons e es)
  let ?s = "nat (start_pos e)" and ?e = "nat (end_pos e)"
  let ?rest = "replace_spans ?e txt es"
  from Cons.prems have c: "chain ?e (length txt) es" and ks: "k \<le> ?s" and se: "?s \<le> ?e"
    and nn: "0 \<le> start_pos e" "0 \<le> end_pos e"
    by auto
  from chain_le [OF c] have en: "?e \<le> length txt" .
  have ih: "foldr (\<lambda>e t. splice_entity t e) es txt = take ?e txt @ ?rest"
    using Cons.IH [OF c] .
  have t: "take ?s (take ?e txt @ ?rest) = take ?s txt"
    using se en by (simp add: min_def)
  have d: "drop ?e (take ?e txt @ ?rest) = ?rest"
    using en by simp
  have k: "take ?s txt = take k txt @ take (?s - k) (drop k txt)"
    using ks by (metis le_add_diff_inverse take_add)
  have "foldr (\<lambda>e t. splice_entity t e) (e # es) txt = splice_entity (take ?e txt @ ?rest) e"
    by (simp only: foldr.simps o_apply ih)
  also have "\<dots> = take ?s (take ?e txt @ ?rest) @ replacement_or_default e
                    @ drop ?e (take ?e txt @ ?rest)"
    using nn by (simp only: splice_entity_def slice_to_def slice_from_def) simp
  also have "\<dots> = take k txt @ replace_spans k txt (e # es)"
    by (simp only: t d k) simp
  finally show ?case .
qed

lemma sorted_reverse_distinct:
  assumes "distinct (map f xs)"
  shows "sorted_reverse f xs = rev (sort_key f xs)"
proof -
  from assms have "inj_on f (set (rev xs))"
    by (simp add: distinct_map)
  then have "sort_key f (rev xs) = sort_key f xs"
    by (rule sort_key_inj_key_eq [rotated]) simp_all
  then show ?thesis by (simp add: sorted_reverse_def)
qed

lemma pairwise_disjoint_mem:
  assumes "pairwise_disjoint es" and "a \<in> set es" and "b \<in> set es"
    and "start_pos a \<noteq> start_pos b"
  shows "disjoint_spans a b"
  using assms
proof (induction es)
  case Nil
  then show ?case by simp
next
  case (Cons e es)
  then show ?case
    by (auto simp: list_all_iff disjoint_spans_def)
qed

lemma chain_of_sorted:
  assumes "sorted_wrt (\<lambda>a b. start_pos a < start_pos b) es"
    and "\<forall>e \<in> set es. valid_offsets txt e"
    and "\<forall>a \<in> set es. \<forall>b \<in> set es. start_pos a \<noteq> start_pos b \<longrightarrow> disjoint_spans a b"
    and "\<forall>e \<in> set es. int k \<le> start_pos e"
    and "k \<le> length txt"
  shows "chain k (length txt) es"
  using assms
proof (induction es arbitrary: k)
  case Nil
  then show ?case by simp
next
  case (Cons e es)
  have v: "valid_offsets txt e" using Cons.prems(2) by simp
  have "\<forall>b \<in> set es. int (nat (end_pos e)) \<le> start_pos b"
  proof
    fix b assume b: "b \<in> set es"
    with Cons.prems(1) have lt: "start_pos e < start_pos b" by auto
    with Cons.prems(3) b have "disjoint_spans e b" by auto
    moreover have "start_pos b \<le> end_pos b"
      using Cons.prems(2) b by (simp add: valid_offsets_def)
    ultimately show "int (nat (end_pos e)) \<le> start_pos b"
      using lt v by (auto simp: disjoint_spans_def valid_offsets_def)
  qed
  moreover have "nat (end_pos e) \<le> length txt"
    using v unfolding valid_offsets_def by linarith
  ultimately have "chain (nat (end_pos e)) (length txt) es"
    using Cons.prems by (intro Cons.IH) auto
  then show ?case
    using v Cons.prems(4) by (simp add: valid_offsets_def)
qed

text \<open>
  Claim C1, amended. For every paragraph text and every list of entities whose marked
  members have valid, pairwise non-overlapping offsets and pairwise different
  \<open>start_pos\<close>, \<open>anonymize_text\<close> (which splices in descending order of
  \<open>start_pos\<close>) returns the text with every marked span replaced at its original
  offsets, whatever the lengths of the replacements.
\<close>

theorem anonymize_text_replaces_spans:
  assumes valid: "\<forall>e \<in> set es. anonymized e \<longrightarrow> valid_offsets txt e"
    and disj: "pairwise_disjoint (filter anonymized es)"
    and starts: "distinct (map start_pos (filter anonymized es))"
  shows "anonymize_text txt es
           = replace_spans 0 txt (sort_key start_pos (filter anonymized es))"
proof -
  let ?marked = "filter anonymized es"
  let ?asc = "sort_key start_pos ?marked"
  have "sorted (map start_pos ?asc)" and "distinct (map start_pos ?asc)"
    using starts by (simp_all add: distinct_map inj_on_def)
  then have "sorted_wrt (<) (map start_pos ?asc)"
    by (simp only: strict_sorted_iff)
  then have s: "sorted_wrt (\<lambda>a b. start_pos a < start_pos b) ?asc"
    by (simp only: sorted_wrt_map)
  have "chain 0 (length txt) ?asc"
  proof (rule chain_of_sorted [OF s])
    show "\<forall>e \<in> set ?asc. valid_offsets txt e" using valid by simp
    show "\<forall>a \<in> set ?asc. \<forall>b \<in> set ?asc. start_pos a \<noteq> start_pos b \<longrightarrow> disjoint_spans a b"
      using pairwise_disjoint_mem [OF disj] by simp
    show "\<forall>e \<in> set ?asc. int 0 \<le> start_pos e"
      using valid by (simp add: valid_offsets_def)
  qed simp
  then have "foldr (\<lambda>e t. splice_entity t e) ?asc txt = replace_spans 0 txt ?asc"
    by (simp add: foldr_splice_chain)
  moreover have "anonymize_text txt es = foldr (\<lambda>e t. splice_entity t e) ?asc txt"
    by (simp add: anonymize_text_marked sorted_reverse_distinct [OF starts] foldr_conv_foldl)
  ultimately show ?thesis by simp
qed


theorem anonymize_text_replaces_spans_witness:
  "anonymize_text (py_str ''Alice met Bob'')
     [(Entity (py_str ''Alice'') (py_str ''PERSON'') 0 5)\<lparr>anonymized := True\<rparr>,
      (Entity (py_str ''Bob'') (py_str ''PERSON'') 10 13)\<lparr>anonymized := True\<rparr>]
   = py_str ''[PERSON] met [PERSON]''"
  using anonymize_text_replaces_spans
    [of "[(Entity (py_str ''Alice'') (py_str ''PERSON'') 0 5)\<lparr>anonymized := True\<rparr>,
          (Entity (py_str ''Bob'') (py_str ''PERSON'') 10 13)\<lparr>anonymized := True\<rparr>]"
        "py_str ''Alice met Bob''"]
  by (simp add: Entity_def valid_offsets_def disjoint_spans_def replacement_or_default_def
      py_str_def)

text \<open>The two examples of the specification, computed by the code.\<close>

lemma anonymize_text_default_replacements:
  "anonymize_text (py_str ''Alice met Bob'')
     [(Entity (py_str ''Alice'') (py_str ''PERSON'') 0 5)\<lparr>anonymized := True\<rparr>,
      (Entity (py_str ''Bob'') (py_str ''PERSON'') 10 13)\<lparr>anonymized := True\<rparr>]
   = py_str ''[PERSON] met [PERSON]''"
  by (simp add: anonymize_text_def sorted_reverse_def splice_entity_def slice_to_def
      slice_from_def replacement_or_default_def Entity_def py_str_def)

lemma anonymize_text_other_lengths:
  "anonymize_text (py_str ''Alice met Bob'')
     [(Entity (py_str ''Alice'') (py_str ''PERSON'') 0 5)
        \<lparr>anonymized := True, replacement := py_str ''X''\<rparr>,
      (Entity (py_str ''Bob'') (py_str ''PERSON'') 10 13)
        \<lparr>anonymized := True, replacement := py_str ''ZZZZZZZZ''\<rparr>]
   = py_str ''X met ZZZZZZZZ''"
  by (simp add: anonymize_text_def sorted_reverse_def splice_entity_def slice_to_def
      slice_from_def replacement_or_default_def Entity_def py_str_def)

text \<open>
  Claim C1 as stated fails where a marked entity with an empty span shares its
  \<open>start_pos\<close> with another marked entity: the offsets below are valid and pairwise
  non-overlapping, the text should become \<open>XYb\<close>, and the code returns \<open>Yab\<close>. The
  stable sort keeps the empty span first, its replacement is inserted at 0, and the
  second splice then overwrites the inserted \<open>X\<close> instead of the \<open>a\<close>.
\<close>

theorem anonymize_text_empty_span_counterexample:
  "list_all (valid_offsets (py_str ''ab''))
     [(Entity [] (py_str ''PERSON'') 0 0)\<lparr>anonymized := True, replacement := py_str ''X''\<rparr>,
      (Entity (py_str ''a'') (py_str ''PERSON'') 0 1)
        \<lparr>anonymized := True, replacement := py_str ''Y''\<rparr>]
   \<and> pairwise_disjoint
     [(Entity [] (py_str ''PERSON'') 0 0)\<lparr>anonymized := True, replacement := py_str ''X''\<rparr>,
      (Entity (py_str ''a'') (py_str ''PERSON'') 0 1)
        \<lparr>anonymized := True, replacement := py_str ''Y''\<rparr>]
   \<and> replace_spans 0 (py_str ''ab'')
     [(Entity [] (py_str ''PERSON'') 0 0)\<lparr>anonymized := True, replacement := py_str ''X''\<rparr>,
      (Entity (py_str ''a'') (py_str ''PERSON'') 0 1)
        \<lparr>anonymized := True, replacement := py_str ''Y''\<rparr>] = py_str ''XYb''
   \<and> anonymize_text (py_str ''ab'')
     [(Entity [] (py_str ''PERSON'') 0 0)\<lparr>anonymized := True, replacement := py_str ''X''\<rparr>,
      (Entity (py_str ''a'') (py_str ''PERSON'') 0 1)
        \<lparr>anonymized := True, replacement := py_str ''Y''\<rparr>] = py_str ''Yab''"
  by (simp add: anonymize_text_def sorted_reverse_def splice_entity_def slice_to_def
      slice_from_def replacement_or_default_def Entity_def py_str_def valid_offsets_def
      disjoint_spans_def)

lemma slice_to_adjust: "slice_to s (adjust_index (length s) i) = slice_to s i"
  by (auto simp: slice_to_def adjust_index_def max_def min_def)

lemma slice_from_adjust: "slice_from s (adjust_index (length s) i) = slice_from s i"
  by (auto simp: slice_from_def adjust_index_def max_def min_def)

lemma adjust_index_bounds: "0 \<le> adjust_index n i \<and> adjust_index n i \<le> int n"
  by (simp add: adjust_index_def)

lemma splice_entity_adjusted: "splice_entity t e = splice_adjusted t e"
  by (auto simp: splice_entity_def splice_adjusted_def slice_to_def slice_from_def
      adjust_index_def max_def min_def)

text \<open>
  Claim C2, amended. \<open>anonymize_text\<close> has no failure and no bounds check. For every
  text and every list of entities, each splice reads the offsets of its entity as a
  slice of the working copy reads them (beyond the end as the length, a negative one
  from the end, below minus the length as 0): the output is the output of the same
  right-to-left pass in which both offsets of every marked entity are adjusted into the
  bounds of the working copy at the moment of its splice.
\<close>

theorem anonymize_text_adjusts_offsets:
  "anonymize_text txt es
     = foldl (\<lambda>t e. if anonymized e then splice_adjusted t e else t) txt
         (sorted_reverse start_pos es)"
  by (simp add: anonymize_text_def splice_entity_adjusted cong: if_cong)

text \<open>
  For a single entity the working copy is the text, so the output is that for the
  entity with its offsets adjusted into the bounds of the text. With several entities
  it is not: the entity that starts at -10 below is spliced into a working copy that
  the splice at 4 to 6 has already shortened.
\<close>

lemma anonymize_text_single_adjusted:
  "anonymize_text txt [e]
     = anonymize_text txt
         [e\<lparr>start_pos := adjust_index (length txt) (start_pos e),
            end_pos := adjust_index (length txt) (end_pos e)\<rparr>]"
  by (simp add: anonymize_text_def sorted_reverse_def splice_entity_def slice_to_adjust
      slice_from_adjust replacement_or_default_def)

lemma anonymize_text_working_copy:
  "anonymize_text (py_str ''abcdef'')
     [(Entity (py_str ''a'') (py_str ''MISC'') (- 10) (- 5))
        \<lparr>anonymized := True, replacement := py_str ''R''\<rparr>,
      (Entity (py_str ''ef'') (py_str ''MISC'') 4 6)
        \<lparr>anonymized := True, replacement := py_str ''S''\<rparr>]
   = py_str ''RabcdS''"
  by (simp add: anonymize_text_def sorted_reverse_def splice_entity_def slice_to_def
      slice_from_def replacement_or_default_def Entity_def py_str_def)

text \<open>
  Claim C2 as stated fails: the entity below ends at 10 in a text of length 3, and
  the code returns the text spliced up to the end of the text.
\<close>

theorem anonymize_text_out_of_bounds_counterexample:
  "int (length (py_str ''abc'')) < end_pos ((Entity (py_str ''bc'') (py_str ''PERSON'') 1 10)
        \<lparr>anonymized := True, replacement := py_str ''X''\<rparr>)
   \<and> anonymize_text (py_str ''abc'')
       [(Entity (py_str ''bc'') (py_str ''PERSON'') 1 10)
          \<lparr>anonymized := True, replacement := py_str ''X''\<rparr>] = py_str ''aX''
   \<and> anonymize_text (py_str ''abc'')
       [(Entity (py_str ''bc'') (py_str ''PERSON'') 1 3)
          \<lparr>anonymized := True, replacement := py_str ''X''\<rparr>] = py_str ''aX''"
  by (simp add: anonymize_text_def sorted_reverse_def splice_entity_def slice_to_def
      slice_from_def replacement_or_default_def Entity_def py_str_def)

section \<open>Properties of the apply pass\<close>

lemma paragraph_entities_owned:
  "paragraph_entities (filter has_paragraph_id es) p = paragraph_entities es p"
  by (induction es) (auto simp: paragraph_entities_def)

lemma anonymize_paragraph_owned:
  "anonymize_paragraph (filter has_paragraph_id es) = anonymize_paragraph es"
  by (rule ext) (simp add: anonymize_paragraph_def paragraph_entities_owned)

lemma anonymize_paragraph_none:
  "paragraph_entities es p = [] \<Longrightarrow> anonymize_paragraph es p = p"
  by (simp add: anonymize_paragraph_def)

lemma filter_filter_comm: "filter P (filter Q xs) = filter Q (filter P xs)"
  by (induction xs) auto

lemma general_entity_ownerless: "\<not> has_paragraph_id (general_entity entity_text_clean ety repl)"
  by (simp add: has_paragraph_id_def general_entity_def)

text \<open>
  Claim C10. Entities without a \<open>paragraph_id\<close> (such as the general entity of a
  manual insertion whose text was found in no paragraph) are in no paragraph's
  replacement set: the paragraphs after the apply pass are the paragraphs the pass
  yields when every such entity is removed from the state beforehand, marked or not.
\<close>

theorem ownerless_entities_excluded:
  "paragraphs (snd (apply_anonymization st))
     = paragraphs (snd (apply_anonymization
         (st\<lparr>entities := filter has_paragraph_id (entities st)\<rparr>)))"
proof -
  let ?marked = "filter anonymized (entities st)"
  let ?owned = "filter has_paragraph_id ?marked"
  have m: "filter anonymized (filter has_paragraph_id (entities st)) = ?owned"
    by (rule filter_filter_comm)
  have same: "map (anonymize_paragraph ?owned) (paragraphs st)
                = map (anonymize_paragraph ?marked) (paragraphs st)"
    by (simp only: anonymize_paragraph_owned)
  have none: "map (anonymize_paragraph ?marked) (paragraphs st) = paragraphs st"
    if "?owned = []"
  proof -
    have "anonymize_paragraph ?marked p = p" for p
      using that paragraph_entities_owned [of ?marked p]
      by (simp add: anonymize_paragraph_def paragraph_entities_def del: filter_filter)
    then show ?thesis by (simp add: map_idI del: filter_filter)
  qed
  have rhs: "paragraphs (snd (apply_anonymization
               (st\<lparr>entities := filter has_paragraph_id (entities st)\<rparr>)))
             = (if ?owned = [] then paragraphs st
                else map (anonymize_paragraph ?owned) (paragraphs st))"
  proof -
    have "filter has_paragraph_id (entities st) = [] \<Longrightarrow> ?owned = []"
      by (simp only: m [symmetric] filter.simps)
    then show ?thesis
      by (auto simp add: apply_anonymization_def Let_def m simp del: filter_filter)
  qed
  have lhs: "paragraphs (snd (apply_anonymization st))
             = (if ?marked = [] then paragraphs st
                else map (anonymize_paragraph ?marked) (paragraphs st))"
    by (auto simp add: apply_anonymization_def Let_def simp del: filter_filter)
  have "?marked = [] \<Longrightarrow> ?owned = []"
    by (simp del: filter_filter)
  with same none show ?thesis
    unfolding lhs rhs by (auto simp del: filter_filter)
qed

section \<open>Properties of the string search\<close>

lemma str_find_None:
  "str_find s sub i = None \<Longrightarrow> i \<le> q \<Longrightarrow> \<not> occurs_at s sub q"
proof (induction s sub i rule: str_find.induct)
  case (1 s sub i)
  show ?case
  proof (cases "length s < i + length sub")
    case True
    with "1.prems" show ?thesis by (simp add: occurs_at_def)
  next
    case False
    with "1.prems" have ne: "take (length sub) (drop i s) \<noteq> sub"
      and rec: "str_find s sub (Suc i) = None"
      by (auto simp: str_find.simps [of s sub i] split: if_splits)
    show ?thesis
    proof (cases "q = i")
      case True
      with ne show ?thesis by (simp add: occurs_at_def)
    next
      case False
      with "1.prems" have "Suc i \<le> q" by simp
      with "1.IH" [OF \<open>\<not> length s < i + length sub\<close> ne rec] show ?thesis by simp
    qed
  qed
qed

lemma str_find_Some:
  "str_find s sub i = Some p \<Longrightarrow>
     i \<le> p \<and> occurs_at s sub p \<and> (\<forall>q. i \<le> q \<and> q < p \<longrightarrow> \<not> occurs_at s sub q)"
proof (induction s sub i rule: str_find.induct)
  case (1 s sub i)
  show ?case
  proof (cases "length s < i + length sub")
    case True
    with "1.prems" show ?thesis by (simp add: str_find.simps [of s sub i])
  next
    case len: False
    show ?thesis
    proof (cases "take (length sub) (drop i s) = sub")
      case True
      with len "1.prems" have "p = i" by (simp add: str_find.simps [of s sub i])
      with len True show ?thesis by (auto simp: occurs_at_def)
    next
      case False
      with len "1.prems" have rec: "str_find s sub (Suc i) = Some p"
        by (simp add: str_find.simps [of s sub i])
      from "1.IH" [OF len False rec]
      have ih: "Suc i \<le> p" "occurs_at s sub p"
        "\<forall>q. Suc i \<le> q \<and> q < p \<longrightarrow> \<not> occurs_at s sub q" by auto
      have "\<not> occurs_at s sub i" using False by (simp add: occurs_at_def)
      with ih show ?thesis
        by (metis Suc_leI le_neq_implies_less Suc_leD)
    qed
  qed
qed

lemma occurrences_None:
  assumes "str_find s sub i = None"
  shows "occurrences s sub i = []"
  using str_find_None [OF assms] by (auto simp: occurrences_def filter_empty_conv)

lemma occurrences_Some:
  assumes "str_find s sub i = Some p"
  shows "occurrences s sub i = p # occurrences s sub (Suc p)"
proof -
  from str_find_Some [OF assms]
  have ip: "i \<le> p" and occ: "occurs_at s sub p"
    and before: "\<forall>q. i \<le> q \<and> q < p \<longrightarrow> \<not> occurs_at s sub q" by auto
  from occ have "p < Suc (length s)" by (simp add: occurs_at_def)
  with ip have "[i..<Suc (length s)] = [i..<p] @ p # [Suc p..<Suc (length s)]"
    by (metis le_add_diff_inverse less_imp_le_nat upt_add_eq_append upt_conv_Cons)
  moreover have "filter (occurs_at s sub) [i..<p] = []"
    using before by (auto simp: filter_empty_conv)
  ultimately show ?thesis using occ by (simp add: occurrences_def)
qed

text \<open>
  Where \<open>lower\<close> maps code point by code point, an occurrence in the lowered strings is
  an occurrence in the text itself up to case: the slice of the text at that position
  has the lower case of the search text.
\<close>

lemma occurs_at_map:
  "occurs_at (map f s) (map f sub) p
     \<longleftrightarrow> p + length sub \<le> length s \<and> map f (slice s p (p + length sub)) = map f sub"
  by (simp add: occurs_at_def slice_def take_map drop_map)

section \<open>Properties of the insertions\<close>

lemma existing_occurrence_append:
  assumes "\<forall>e \<in> set added. paragraph_id e = Some i \<longrightarrow> start_pos e < int start"
    and "start \<le> pos"
  shows "existing_occurrence (base @ added) i pos = existing_occurrence base i pos"
  using assms by (auto simp: existing_occurrence_def list_ex_iff)

lemma occurrences_loop_eq:
  assumes "\<forall>e \<in> set added. paragraph_id e = Some i \<longrightarrow> start_pos e < int start"
  shows "occurrences_loop tlow slow ptxt clean ety repl i start (base @ added, n)
         = (base @ added @ map (occurrence_entity ptxt clean ety repl i)
               (filter (\<lambda>pos. \<not> existing_occurrence base i pos) (occurrences tlow slow start)),
            n + length (filter (\<lambda>pos. \<not> existing_occurrence base i pos)
                  (occurrences tlow slow start)))"
  using assms
proof (induction "Suc (length tlow) - start" arbitrary: start added n rule: less_induct)
  case less
  show ?case
  proof (cases "str_find tlow slow start")
    case None
    then show ?thesis
      by (simp add: occurrences_loop.simps [of tlow slow ptxt clean ety repl i start] occurrences_None)
  next
    case (Some pos)
    from str_find_bounds [OF Some] have b: "start \<le> pos" "pos \<le> length tlow" by auto
    then have m: "Suc (length tlow) - Suc pos < Suc (length tlow) - start" by simp
    have ex: "existing_occurrence (base @ added) i pos = existing_occurrence base i pos"
      using less.prems b(1) by (rule existing_occurrence_append)
    let ?new = "occurrence_entity ptxt clean ety repl i pos"
    show ?thesis
    proof (cases "existing_occurrence base i pos")
      case True
      have "\<forall>e \<in> set added. paragraph_id e = Some i \<longrightarrow> start_pos e < int (Suc pos)"
        using less.prems b(1) by fastforce
      from less.hyps [OF m this, of n] True Some ex show ?thesis
        by (simp add: occurrences_loop.simps [of tlow slow ptxt clean ety repl i start]
            occurrences_Some)
    next
      case False
      have "\<forall>e \<in> set (added @ [?new]). paragraph_id e = Some i \<longrightarrow> start_pos e < int (Suc pos)"
        using less.prems b(1) by (fastforce simp: occurrence_entity_def Let_def)
      from less.hyps [OF m this, of "Suc n"] False Some ex show ?thesis
        by (simp add: occurrences_loop.simps [of tlow slow ptxt clean ety repl i start]
            occurrences_Some)
    qed
  qed
qed

lemma occurrence_entity_paragraph_id [simp]:
  "paragraph_id (occurrence_entity ptxt clean ety repl i pos) = Some i"
  by (simp add: occurrence_entity_def Let_def)

lemma paragraphs_loop_eq:
  assumes "\<forall>e \<in> set added. \<forall>j. paragraph_id e = Some j \<longrightarrow> j < i"
  shows "paragraphs_loop lower clean ety repl i ps (base @ added, n)
         = (base @ added @ concat (map (\<lambda>(j, paragraph).
               map (occurrence_entity (ptext paragraph) clean ety repl j)
                 (new_positions base j (lower (ptext paragraph)) (lower clean)))
             (enumerate i ps)),
            n + length (concat (map (\<lambda>(j, paragraph).
               map (occurrence_entity (ptext paragraph) clean ety repl j)
                 (new_positions base j (lower (ptext paragraph)) (lower clean)))
             (enumerate i ps))))"
  using assms
proof (induction ps arbitrary: i added n)
  case Nil
  then show ?case by simp
next
  case (Cons p ps)
  let ?here = "map (occurrence_entity (ptext p) clean ety repl i)
                 (new_positions base i (lower (ptext p)) (lower clean))"
  have a: "\<forall>e \<in> set added. paragraph_id e = Some i \<longrightarrow> start_pos e < int 0"
    using Cons.prems by auto
  have step: "occurrences_loop (lower (ptext p)) (lower clean) (ptext p) clean ety repl i 0
                (base @ added, n) = (base @ (added @ ?here), n + length ?here)"
    using occurrences_loop_eq [OF a, of "lower (ptext p)" "lower clean" "ptext p" clean ety repl base n]
    by (simp add: new_positions_def)
  have b: "\<forall>e \<in> set (added @ ?here). \<forall>j. paragraph_id e = Some j \<longrightarrow> j < Suc i"
    using Cons.prems by (auto simp: less_Suc_eq)
  show ?case
    by (simp only: paragraphs_loop.simps step Cons.IH [OF b]) (simp add: enumerate_simps)
qed

lemma strip_Nil [simp]: "strip [] = []"
  by (simp add: strip_def)

lemma paragraphs_loop_bulk_created:
  "paragraphs_loop lower clean ety repl 0 (paragraphs st) (entities st, 0)
     = (entities st @ bulk_created lower st clean ety repl,
        length (bulk_created lower st clean ety repl))"
  using paragraphs_loop_eq [of "[]" 0 lower clean ety repl "paragraphs st" "entities st" 0]
  by (simp add: bulk_created_def)

text \<open>The definitions a concrete input is evaluated with.\<close>

lemmas eval_defs = py_str_def lower_latin_def lower_code_point_def strip_def isspace_def
  occurrence_entity_def slice_def Paragraph_def manual_replacement_def existing_occurrence_def
  Let_def

lemmas spec_defs = bulk_created_def new_positions_def occurrences_def occurs_at_def
  enumerate_simps general_entity_def

text \<open>
  What the bulk insertion does, for every \<open>lower\<close>. When the text is not blank and the
  whole-transcript check on entity texts lets it through, the entities appended are
  those of \<open>bulk_created\<close>: one at every position of the lowered paragraph text where
  the lowered search text occurs, overlapping occurrences included, left to right, but
  for the positions an existing entity already has in that paragraph; and the one
  general entity when there is no such position at all.
\<close>

lemma bulk_insert_lowered_occurrences:
  assumes "strip entity_text \<noteq> []"
    and "\<not> list_ex (\<lambda>e. lower (etext e) = lower (strip entity_text)) (entities st)"
  shows "entities (snd (add_entity_without_search lower st entity_text ety repl))
           = entities st @
               (if bulk_created lower st (strip entity_text) ety repl = []
                then [general_entity (strip entity_text) ety repl]
                else bulk_created lower st (strip entity_text) ety repl)"
proof -
  from assms(1) have "entity_text \<noteq> []" by auto
  with assms show ?thesis
    by (simp add: add_entity_without_search_def Let_def paragraphs_loop_bulk_created)
qed

lemma bulk_insert_the_cat_entities:
  "map (\<lambda>e. (paragraph_id e, start_pos e, end_pos e, etext e))
     (entities (snd (add_entity_without_search lower_latin the_cat_state (py_str '' the '')
        (py_str ''PERSON'') [])))
   = [(Some 0, 0, 3, py_str ''The''), (Some 0, 12, 15, py_str ''the''),
      (Some 0, 16, 19, py_str ''the'')]"
  using bulk_insert_lowered_occurrences
    [of "py_str '' the ''" lower_latin the_cat_state "py_str ''PERSON''" "[]"]
  by (simp add: the_cat_state_def eval_defs spec_defs)

text \<open>
  Where \<open>lower\<close> maps code point by code point, the positions of the lowered text are
  the positions of the paragraph text, and the bulk insertion creates the entities it is
  to create.
\<close>

lemma occurs_at_lowered:
  assumes "\<And>s. lower s = map f s"
  shows "occurs_at (lower ptxt) (lower sub) p = occurs_ignoring_case lower ptxt sub p"
  by (simp add: assms occurs_at_map occurs_ignoring_case_def)

lemma new_positions_claimed:
  assumes "\<And>s. lower s = map f s"
  shows "new_positions existing i (lower ptxt) (lower clean)
           = claimed_positions lower existing i ptxt clean"
proof -
  have "length (lower ptxt) = length ptxt" by (simp add: assms)
  then show ?thesis
    by (simp add: new_positions_def claimed_positions_def occurrences_def
        occurs_at_lowered [OF assms] del: upt_Suc)
qed

lemma bulk_created_claimed:
  assumes "\<And>s. lower s = map f s"
  shows "bulk_created lower st clean ety repl = bulk_claimed lower st clean ety repl"
  by (simp add: bulk_created_def bulk_claimed_def new_positions_claimed [OF assms])

lemma bulk_insert_claimed_if_per_code_point:
  assumes "\<And>s. lower s = map f s"
    and "strip entity_text \<noteq> []"
    and "\<not> list_ex (\<lambda>e. lower (etext e) = lower (strip entity_text)) (entities st)"
  shows "entities (snd (add_entity_without_search lower st entity_text ety repl))
           = entities st @
               (if bulk_claimed lower st (strip entity_text) ety repl = []
                then [general_entity (strip entity_text) ety repl]
                else bulk_claimed lower st (strip entity_text) ety repl)"
proof -
  from assms(2) have "entity_text \<noteq> []" by auto
  with assms(2,3) show ?thesis
    by (simp add: add_entity_without_search_def Let_def paragraphs_loop_bulk_created
        bulk_created_claimed [OF assms(1)])
qed

text \<open>
  Claim C4 fails on the code for a paragraph whose lower-case form is longer than the
  paragraph, by the defect of claim C3: the positions found in
  \<open>paragraph.text.lower()\<close> are used as positions of the paragraph. In the paragraph
  made of U+0130 and \<open>ab\<close> the text \<open>a\<close> occurs at position 1 only, so one entity
  \<open>a\<close> at 1 to 2 is to be created; the code finds \<open>a\<close> at 2 in the lowered text and
  creates an entity \<open>b\<close> at 2 to 3, and none at 1.
\<close>

theorem bulk_insert_dotted_I_wrong_position:
  "entities (snd (add_entity_without_search lower_latin dotted_ab_state (py_str ''a'')
       (py_str ''PERSON'') []))
     = [\<lparr>etext = py_str ''b'', entity_type = py_str ''PERSON'', start_pos = 2, end_pos = 3,
         anonymized = False, replacement = py_str ''[PERSON]'', paragraph_id = Some 0,
         auto_detected = Some False\<rparr>]
   \<and> bulk_claimed lower_latin dotted_ab_state (py_str ''a'') (py_str ''PERSON'') []
     = [\<lparr>etext = py_str ''a'', entity_type = py_str ''PERSON'', start_pos = 1, end_pos = 2,
         anonymized = False, replacement = py_str ''[PERSON]'', paragraph_id = Some 0,
         auto_detected = Some False\<rparr>]"
  by (simp add: add_entity_without_search_def dotted_ab_state_def eval_defs
      occurrences_loop.simps str_find.simps bulk_claimed_def claimed_positions_def
      occurs_ignoring_case_def enumerate_simps)

text \<open>The pairs (paragraph, start\_pos) of the created entities, and examples run on the code.\<close>

lemma bulk_created_positions:
  "map (\<lambda>e. (paragraph_id e, start_pos e)) (bulk_created lower st clean ety repl)
     = concat (map (\<lambda>(i, paragraph).
         map (\<lambda>pos. (Some i, int pos))
           (new_positions (entities st) i (lower (ptext paragraph)) (lower clean)))
       (enumerate 0 (paragraphs st)))"
  by (simp add: bulk_created_def map_concat comp_def case_prod_unfold
      occurrence_entity_def Let_def)

lemma bulk_insert_the_cat:
  "map start_pos (entities (snd (add_entity_without_search lower_latin the_cat_state
       (py_str ''the'') (py_str ''PERSON'') []))) = [0, 12, 16]"
  by (simp add: add_entity_without_search_def the_cat_state_def eval_defs
      occurrences_loop.simps str_find.simps)

lemma bulk_insert_overlapping:
  "map start_pos (entities (snd (add_entity_without_search lower_latin
       \<lparr>original_transcript = py_str ''aaa'', current_transcript = py_str ''aaa'',
        paragraphs = [Paragraph 0 (py_str ''aaa'')], entities = []\<rparr>
       (py_str ''AA'') (py_str ''MISC'') []))) = [0, 1]"
  by (simp add: add_entity_without_search_def eval_defs
      occurrences_loop.simps str_find.simps)

lemma bulk_insert_skips_existing_position:
  "map (\<lambda>e. (etext e, start_pos e)) (entities (snd (add_entity_without_search lower_latin
       (the_cat_state\<lparr>entities :=
          [occurrence_entity (py_str ''The cat and the the dog'') (py_str ''The cat'')
             (py_str ''MISC'') [] 0 0]\<rparr>)
       (py_str ''the'') (py_str ''PERSON'') [])))
     = [(py_str ''The cat'', 0), (py_str ''the'', 12), (py_str ''the'', 16)]"
  by (simp add: add_entity_without_search_def the_cat_state_def eval_defs
      occurrences_loop.simps str_find.simps)

text \<open>
  Claim C5, amended. Before the bulk insertion runs, if an entity with the same text
  (compared in lower case) exists anywhere in the entity collection, nothing is
  inserted and \<open>Already_exists\<close> is signaled, whatever the positions of the existing
  entities; the single insertion from a search result makes no such check.
\<close>

theorem bulk_insert_rejects_duplicate_text:
  assumes "strip entity_text \<noteq> []"
    and "list_ex (\<lambda>e. lower (etext e) = lower (strip entity_text)) (entities st)"
  shows "add_entity_without_search lower st entity_text ety repl
           = (Already_exists (strip entity_text), st)"
proof -
  from assms(1) have "entity_text \<noteq> []" by auto
  with assms show ?thesis
    by (simp add: add_entity_without_search_def Let_def)
qed

theorem bulk_insert_rejects_duplicate_text_witness:
  "add_entity_without_search lower_latin two_bobs_state (py_str ''bob '') (py_str ''PERSON'') []
     = (Already_exists (py_str ''bob''), two_bobs_state)"
  using bulk_insert_rejects_duplicate_text
    [of "py_str ''bob ''" lower_latin two_bobs_state "py_str ''PERSON''" "[]"]
  by (simp add: two_bobs_state_def eval_defs)

text \<open>
  Claim C5 as stated fails for the single insertion from a search result: an entity
  \<open>Bob\<close> exists in the first paragraph, the search for \<open>bob\<close> offers the second
  paragraph, and selecting that match creates a second entity with the text \<open>Bob\<close>.
\<close>

theorem single_insert_duplicate_text_counterexample:
  "list_ex (\<lambda>e. lower_latin (etext e) = lower_latin (py_str ''bob'')) (entities two_bobs_state)
   \<and> search_text lower_latin (paragraphs two_bobs_state) (py_str ''bob'')
       = [\<lparr>match_paragraph_id = 0, match_context = py_str ''Bob left'', match_start_pos = 0\<rparr>,
          \<lparr>match_paragraph_id = 1, match_context = py_str ''Bob came'', match_start_pos = 0\<rparr>]
   \<and> create_entity_from_match lower_latin two_bobs_state (py_str ''bob'') (py_str ''PERSON'') []
        \<lparr>match_paragraph_id = 1, match_context = py_str ''Bob came'', match_start_pos = 0\<rparr>
       = Inr (Added_in_paragraph (py_str ''Bob'') 2,
              two_bobs_state\<lparr>entities := entities two_bobs_state @
                [occurrence_entity (py_str ''Bob came'') (py_str ''bob'') (py_str ''PERSON'') [] 1 0]\<rparr>)
   \<and> etext (occurrence_entity (py_str ''Bob came'') (py_str ''bob'') (py_str ''PERSON'') [] 1 0)
       = py_str ''Bob''"
  by (simp add: two_bobs_state_def create_entity_from_match_def search_text_def eval_defs
      str_find.simps)

lemma search_paragraphs_mem:
  "m \<in> set (search_paragraphs lower search_term i ps) \<Longrightarrow>
     \<exists>j < length ps. match_paragraph_id m = i + j
        \<and> str_find (lower (ptext (ps ! j))) (lower search_term) 0 = Some (match_start_pos m)"
proof (induction ps arbitrary: i)
  case Nil
  then show ?case by simp
next
  case (Cons p ps)
  show ?case
  proof (cases "m \<in> set (search_paragraphs lower search_term (Suc i) ps)")
    case True
    from Cons.IH [OF True] obtain j where "j < length ps"
      "match_paragraph_id m = Suc i + j"
      "str_find (lower (ptext (ps ! j))) (lower search_term) 0 = Some (match_start_pos m)" by blast
    then show ?thesis by (intro exI [of _ "Suc j"]) simp
  next
    case False
    with Cons.prems show ?thesis
      by (intro exI [of _ 0]) (auto split: option.splits simp: Let_def)
  qed
qed

text \<open>
  What the single insertion does, for every \<open>lower\<close> and every match \<open>m\<close> offered by
  the search of the dialog: it is rejected with the state unchanged whenever some
  entity already belongs to the paragraph of the match, whatever its text or position;
  otherwise one entity is appended, built from the paragraph text at the first position
  of the lowered paragraph text where the lowered search text occurs.
\<close>

lemma single_insert_lowered_first_occurrence:
  assumes "m \<in> set (search_text lower (paragraphs st) input_value)"
  shows "match_paragraph_id m < length (paragraphs st)
     \<and> occurs_at (lower (ptext (paragraphs st ! match_paragraph_id m)))
         (lower (strip input_value)) (match_start_pos m)
     \<and> (\<forall>q < match_start_pos m.
           \<not> occurs_at (lower (ptext (paragraphs st ! match_paragraph_id m)))
               (lower (strip input_value)) q)
     \<and> create_entity_from_match lower st (strip input_value) ety repl m
       = Inr (let new = occurrence_entity (ptext (paragraphs st ! match_paragraph_id m))
                          (strip input_value) ety repl (match_paragraph_id m)
                          (match_start_pos m)
              in if list_ex (\<lambda>e. paragraph_id e = Some (match_paragraph_id m)) (entities st)
                 then (Exists_in_paragraph (etext new) (match_paragraph_id m + 1), st)
                 else (Added_in_paragraph (etext new) (match_paragraph_id m + 1),
                       st\<lparr>entities := entities st @ [new]\<rparr>))"
proof -
  from assms have "m \<in> set (search_paragraphs lower (strip input_value) 0 (paragraphs st))"
    by (simp add: search_text_def Let_def split: if_splits)
  from search_paragraphs_mem [OF this]
  have lt: "match_paragraph_id m < length (paragraphs st)"
    and f: "str_find (lower (ptext (paragraphs st ! match_paragraph_id m)))
              (lower (strip input_value)) 0 = Some (match_start_pos m)"
    by auto
  from str_find_Some [OF f] lt f show ?thesis
    by (simp add: create_entity_from_match_def Let_def)
qed

lemma single_insert_two_bobs:
  "create_entity_from_match lower_latin two_bobs_state (py_str ''bob'') (py_str ''PERSON'') []
        \<lparr>match_paragraph_id = 1, match_context = py_str ''Bob came'', match_start_pos = 0\<rparr>
     = Inr (Added_in_paragraph (py_str ''Bob'') 2,
            two_bobs_state\<lparr>entities := entities two_bobs_state @
              [occurrence_entity (py_str ''Bob came'') (py_str ''bob'') (py_str ''PERSON'') [] 1 0]\<rparr>)
   \<and> create_entity_from_match lower_latin two_bobs_state (py_str ''LEFT'') (py_str ''MISC'') []
        \<lparr>match_paragraph_id = 0, match_context = py_str ''Bob left'', match_start_pos = 4\<rparr>
     = Inr (Exists_in_paragraph (py_str ''left'') 1, two_bobs_state)"
proof -
  have m1: "\<lparr>match_paragraph_id = 1, match_context = py_str ''Bob came'', match_start_pos = 0\<rparr>
              \<in> set (search_text lower_latin (paragraphs two_bobs_state) (py_str ''bob''))"
    by (simp add: two_bobs_state_def search_text_def eval_defs str_find.simps)
  have m0: "\<lparr>match_paragraph_id = 0, match_context = py_str ''Bob left'', match_start_pos = 4\<rparr>
              \<in> set (search_text lower_latin (paragraphs two_bobs_state) (py_str ''LEFT''))"
    by (simp add: two_bobs_state_def search_text_def eval_defs str_find.simps)
  have s: "strip (py_str ''bob'') = py_str ''bob''" "strip (py_str ''LEFT'') = py_str ''LEFT''"
    by (simp_all add: eval_defs)
  show ?thesis
    using single_insert_lowered_first_occurrence [OF m1, of "py_str ''PERSON''" "[]"]
      single_insert_lowered_first_occurrence [OF m0, of "py_str ''MISC''" "[]"]
    by (simp add: s) (simp add: two_bobs_state_def eval_defs)
qed

lemma single_insert_rejected_if_paragraph_has_entity:
  assumes "m \<in> set (search_text lower (paragraphs st) input_value)"
    and "list_ex (\<lambda>e. paragraph_id e = Some (match_paragraph_id m)) (entities st)"
  shows "\<exists>t. create_entity_from_match lower st (strip input_value) ety repl m
           = Inr (Exists_in_paragraph t (match_paragraph_id m + 1), st)"
proof -
  from assms(1) have "m \<in> set (search_paragraphs lower (strip input_value) 0 (paragraphs st))"
    by (simp add: search_text_def Let_def split: if_splits)
  from search_paragraphs_mem [OF this] assms(2) show ?thesis
    by (auto simp: create_entity_from_match_def Let_def)
qed

text \<open>
  Where \<open>lower\<close> maps code point by code point, that position is the first position
  of the paragraph text at which the search text occurs case-insensitively.
\<close>

lemma single_insert_claimed_if_per_code_point:
  assumes "\<And>s. lower s = map f s"
    and "m \<in> set (search_text lower (paragraphs st) input_value)"
  shows "occurs_ignoring_case lower (ptext (paragraphs st ! match_paragraph_id m))
           (strip input_value) (match_start_pos m)
     \<and> (\<forall>q < match_start_pos m.
           \<not> occurs_ignoring_case lower (ptext (paragraphs st ! match_paragraph_id m))
               (strip input_value) q)"
proof -
  from assms(2) have "m \<in> set (search_paragraphs lower (strip input_value) 0 (paragraphs st))"
    by (simp add: search_text_def Let_def split: if_splits)
  from search_paragraphs_mem [OF this]
  have "str_find (lower (ptext (paragraphs st ! match_paragraph_id m)))
              (lower (strip input_value)) 0 = Some (match_start_pos m)"
    by auto
  from str_find_Some [OF this] show ?thesis
    by (simp add: occurs_at_lowered [OF assms(1)])
qed

text \<open>
  Claim C9 fails on the code in its second half, by the defect of claim C3: the
  offset of the new entity is a position of \<open>paragraph.text.lower()\<close>. In the paragraph
  made of U+0130 and \<open>ab\<close> the search for \<open>a\<close> offers the paragraph, whose text has
  \<open>a\<close> at position 1; selecting the match inserts an entity \<open>b\<close> at 2 to 3.
\<close>

theorem single_insert_dotted_I_wrong_position:
  "search_text lower_latin (paragraphs dotted_ab_state) (py_str ''a'')
     = [\<lparr>match_paragraph_id = 0, match_context = [304, 97, 98], match_start_pos = 2\<rparr>]
   \<and> create_entity_from_match lower_latin dotted_ab_state (py_str ''a'') (py_str ''PERSON'') []
        \<lparr>match_paragraph_id = 0, match_context = [304, 97, 98], match_start_pos = 2\<rparr>
     = Inr (Added_in_paragraph (py_str ''b'') 1,
            dotted_ab_state\<lparr>entities :=
              [\<lparr>etext = py_str ''b'', entity_type = py_str ''PERSON'', start_pos = 2,
                end_pos = 3, anonymized = False, replacement = py_str ''[PERSON]'',
                paragraph_id = Some 0, auto_detected = Some False\<rparr>]\<rparr>)
   \<and> occurs_ignoring_case lower_latin [304, 97, 98] (py_str ''a'') 1
   \<and> slice [304, 97, 98] 1 2 = py_str ''a''"
  by (simp add: dotted_ab_state_def create_entity_from_match_def search_text_def eval_defs
      str_find.simps occurs_ignoring_case_def)

text \<open>
  Claim C3 fails on the code for a paragraph whose lower-case form is longer than the
  paragraph. The bulk insertion searches in \<open>paragraph.text.lower()\<close> and uses the
  position found there as an offset of \<open>paragraph.text\<close>. For the paragraph made of
  twice U+0130 and \<open>a\<close> (length 3, lower-case form of length 5), inserting \<open>a\<close> creates
  an entity with the empty text at the offsets 4 to 4, beyond the end of the paragraph.
\<close>

theorem bulk_insert_dotted_capital_I:
  "entities (snd (add_entity_without_search lower_latin dotted_state (py_str ''a'')
       (py_str ''PERSON'') []))
     = [\<lparr>etext = [], entity_type = py_str ''PERSON'', start_pos = 4, end_pos = 4,
         anonymized = False, replacement = py_str ''[PERSON]'', paragraph_id = Some 0,
         auto_detected = Some False\<rparr>]
   \<and> length (ptext (paragraphs dotted_state ! 0)) = 3
   \<and> \<not> valid_offsets (ptext (paragraphs dotted_state ! 0))
         \<lparr>etext = [], entity_type = py_str ''PERSON'', start_pos = 4, end_pos = 4,
          anonymized = False, replacement = py_str ''[PERSON]'', paragraph_id = Some 0,
          auto_detected = Some False\<rparr>"
  by (simp add: add_entity_without_search_def dotted_state_def eval_defs
      occurrences_loop.simps str_find.simps valid_offsets_def)

text \<open>
  The part of claim C3 that holds for the bulk insertion: the stored text is always the
  slice of the paragraph at the stored offsets, and the offsets are valid whenever
  \<open>lower\<close> keeps the length of every string, as it does on every text without U+0130.
\<close>

lemma occurrence_entity_text:
  "etext (occurrence_entity ptxt clean ety repl i pos)
     = slice ptxt (nat (start_pos (occurrence_entity ptxt clean ety repl i pos)))
         (nat (end_pos (occurrence_entity ptxt clean ety repl i pos)))"
proof -
  have n: "nat (int pos + int k) - pos = k" for k by simp
  show ?thesis
    by (simp add: occurrence_entity_def Let_def slice_def n min_def)
qed

lemma occurrence_entity_valid:
  assumes "pos + length clean \<le> length ptxt"
  shows "valid_offsets ptxt (occurrence_entity ptxt clean ety repl i pos)"
  using assms by (simp add: occurrence_entity_def Let_def slice_def valid_offsets_def)

lemma bulk_created_valid:
  assumes keeps: "\<And>s. length (lower s) = length s"
    and e: "e \<in> set (bulk_created lower st clean ety repl)"
  shows "\<exists>i < length (paragraphs st). paragraph_id e = Some i
           \<and> valid_offsets (ptext (paragraphs st ! i)) e
           \<and> etext e = slice (ptext (paragraphs st ! i)) (nat (start_pos e)) (nat (end_pos e))"
proof -
  from e obtain i par pos where mem: "(i, par) \<in> set (enumerate 0 (paragraphs st))"
    and pos: "pos \<in> set (new_positions (entities st) i (lower (ptext par)) (lower clean))"
    and eq: "e = occurrence_entity (ptext par) clean ety repl i pos"
    by (auto simp: bulk_created_def)
  from mem have i: "i < length (paragraphs st)" and par: "par = paragraphs st ! i"
    by (auto simp: in_set_enumerate_eq)
  from pos have "occurs_at (lower (ptext par)) (lower clean) pos"
    by (auto simp: new_positions_def occurrences_def simp del: upt_Suc)
  then have "pos + length clean \<le> length (ptext par)"
    by (simp add: occurs_at_def keeps)
  from occurrence_entity_valid [OF this] occurrence_entity_text i par eq
  show ?thesis by auto
qed

section \<open>Properties of the segmentation\<close>

lemma strip_empty_iff: "strip s = [] \<longleftrightarrow> (\<forall>x \<in> set s. isspace x)"
proof
  assume "\<forall>x \<in> set s. isspace x"
  then have d: "dropWhile isspace s = []" by simp
  show "strip s = []" unfolding strip_def d by simp
next
  assume e: "strip s = []"
  show "\<forall>x \<in> set s. isspace x"
  proof (rule ccontr)
    assume "\<not> (\<forall>x \<in> set s. isspace x)"
    then obtain y ys where d: "dropWhile isspace s = y # ys" and ny: "\<not> isspace y"
      by (metis dropWhile_eq_Nil_conv hd_dropWhile list.exhaust_sel)
    then have "dropWhile isspace (rev (dropWhile isspace s)) \<noteq> []"
      by (auto simp: dropWhile_eq_Nil_conv)
    with e show False by (simp add: strip_def)
  qed
qed

lemma stripped_units_empty_iff:
  "stripped_units pieces = [] \<longleftrightarrow> (\<forall>p \<in> set pieces. \<forall>x \<in> set p. isspace x)"
  by (auto simp: stripped_units_def filter_empty_conv strip_empty_iff)

lemma str_split_pieces: "p \<in> set (str_split s c cs) \<Longrightarrow> set p \<subseteq> set s"
proof (induction s c cs rule: str_split.induct)
  case (1 s c cs)
  show ?case
  proof (cases "str_find s (c # cs) 0")
    case None
    with "1.prems" show ?thesis by (simp add: str_split.simps [of s c cs])
  next
    case (Some q)
    with "1.prems" have "p = take q s \<or> p \<in> set (str_split (drop (q + length (c # cs)) s) c cs)"
      by (simp add: str_split.simps [of s c cs])
    then show ?thesis
    proof
      assume "p = take q s"
      then show ?thesis by (auto dest: in_set_takeD)
    next
      assume "p \<in> set (str_split (drop (q + length (c # cs)) s) c cs)"
      from "1.IH" [OF Some this] show ?thesis by (auto dest: in_set_dropD)
    qed
  qed
qed

lemma str_split_covers:
  "\<forall>p \<in> set (str_split s c cs). \<forall>x \<in> set p. P x \<Longrightarrow> \<forall>x \<in> set (c # cs). P x
     \<Longrightarrow> \<forall>x \<in> set s. P x"
proof (induction s c cs rule: str_split.induct)
  case (1 s c cs)
  show ?case
  proof (cases "str_find s (c # cs) 0")
    case None
    with "1.prems" show ?thesis by (simp add: str_split.simps [of s c cs])
  next
    case (Some q)
    let ?rest = "drop (q + length (c # cs)) s"
    from Some "1.prems"(1) have first: "\<forall>x \<in> set (take q s). P x"
      and others: "\<forall>p \<in> set (str_split ?rest c cs). \<forall>x \<in> set p. P x"
      by (simp_all add: str_split.simps [of s c cs])
    from "1.IH" [OF Some others "1.prems"(2)] have rest: "\<forall>x \<in> set ?rest. P x" .
    from str_find_Some [OF Some] have "take (length (c # cs)) (drop q s) = c # cs"
      by (simp add: occurs_at_def)
    then have "s = take q s @ (c # cs) @ ?rest"
      by (metis append_take_drop_id drop_drop add.commute)
    then have "set s = set (take q s) \<union> set (c # cs) \<union> set ?rest"
      by (metis set_append Un_assoc)
    with first rest "1.prems"(2) show ?thesis by blast
  qed
qed

lemma re_split_runs_pieces: "p \<in> set (re_split_runs P s) \<Longrightarrow> set p \<subseteq> set s"
proof (induction P s rule: re_split_runs.induct)
  case (1 P s)
  show ?case
  proof (cases "dropWhile (\<lambda>x. \<not> P x) s")
    case Nil
    with "1.prems" show ?thesis by (simp add: re_split_runs.simps [of P s])
  next
    case (Cons x rest)
    with "1.prems" have "p = takeWhile (\<lambda>x. \<not> P x) s \<or> p \<in> set (re_split_runs P (dropWhile P rest))"
      by (simp add: re_split_runs.simps [of P s])
    then show ?thesis
    proof
      assume "p = takeWhile (\<lambda>x. \<not> P x) s"
      then show ?thesis by (auto dest: set_takeWhileD)
    next
      assume "p \<in> set (re_split_runs P (dropWhile P rest))"
      from "1.IH" [OF Cons this] have "set p \<subseteq> set (dropWhile P rest)" .
      also have "\<dots> \<subseteq> set rest" by (auto dest: set_dropWhileD)
      also have "\<dots> \<subseteq> set (dropWhile (\<lambda>x. \<not> P x) s)" by (auto simp: Cons)
      also have "\<dots> \<subseteq> set s" by (auto dest: set_dropWhileD)
      finally show ?thesis .
    qed
  qed
qed

lemma isspace_newline: "isspace 10"
  by (simp add: isspace_def)

lemma blank_text_no_units:
  assumes "\<forall>x \<in> set content. isspace x"
  shows "split_blank_lines content = []" and "split_lines content = []"
    and "split_sentences content = []"
  using assms str_split_pieces re_split_runs_pieces
  by (fastforce simp: split_blank_lines_def split_lines_def split_sentences_def
      stripped_units_empty_iff)+

lemma no_blank_line_units_blank_text:
  assumes "split_blank_lines content = []"
  shows "\<forall>x \<in> set content. isspace x"
  using assms str_split_covers [of content 10 "[10]" isspace]
  by (simp add: split_blank_lines_def stripped_units_empty_iff isspace_newline)

lemma no_line_units_blank_text:
  assumes "split_lines content = []"
  shows "\<forall>x \<in> set content. isspace x"
  using assms str_split_covers [of content 10 "[]" isspace]
  by (simp add: split_lines_def stripped_units_empty_iff isspace_newline)

text \<open>
  Claim C7, amended. The three strategies are applied in strict priority order, a
  strategy being tried only when its delimiter occurs in the text (two consecutive line
  breaks for the first, a line break for the second; the third is always tried), and
  the segmentation stops at the first tried strategy that yields at least one non-empty
  unit. The code commits to the first strategy whose delimiter occurs; this is the same,
  since a text whose chosen strategy yields no unit is blank and yields none under any
  strategy.
\<close>

theorem primary_split_first_applicable:
  "primary_split content = first_applicable_yielding_strategy content"
proof (cases "contains content [10, 10]")
  case nn: True
  show ?thesis
  proof (cases "split_blank_lines content = []")
    case True
    from blank_text_no_units [OF no_blank_line_units_blank_text [OF True]] nn True
    show ?thesis
      by (simp add: primary_split_def first_applicable_yielding_strategy_def)
  next
    case False
    with nn show ?thesis
      by (simp add: primary_split_def first_applicable_yielding_strategy_def)
  qed
next
  case no_nn: False
  show ?thesis
  proof (cases "contains content [10] \<and> split_lines content = []")
    case True
    then have "split_lines content = []" by simp
    from blank_text_no_units [OF no_line_units_blank_text [OF this]] no_nn True
    show ?thesis
      by (simp add: primary_split_def first_applicable_yielding_strategy_def)
  next
    case False
    with no_nn show ?thesis
      by (auto simp: primary_split_def first_applicable_yielding_strategy_def)
  qed
qed

text \<open>The definitions a concrete text is segmented with.\<close>

lemmas seg_defs = primary_split_def first_yielding_strategy_def split_blank_lines_def
  split_lines_def split_sentences_def stripped_units_def contains_def strip_def isspace_def
  sentence_end_def py_str_def

text \<open>
  Claim C7 as stated fails: splitting \<open>a\<close>, line break, \<open>b\<close> on blank-line boundaries
  yields one non-empty unit, the whole text, so the cascade of the specification stops
  there, while the code splits at the line break.
\<close>

theorem first_yielding_strategy_counterexample:
  "primary_split (py_str ''a'' @ [10] @ py_str ''b'') = [py_str ''a'', py_str ''b'']
   \<and> first_yielding_strategy (py_str ''a'' @ [10] @ py_str ''b'')
       = [py_str ''a'' @ [10] @ py_str ''b'']"
  by (simp add: seg_defs str_find.simps str_split.simps)

lemma blank_lines_only:
  "contains [32, 10, 10, 32] [10, 10] \<and> primary_split [32, 10, 10, 32] = []
   \<and> split_blank_lines [32, 10, 10, 32] = []"
  by (simp add: seg_defs str_find.simps str_split.simps)

lemma segment_examples:
  "primary_split (py_str ''a'' @ [10, 10, 10] @ py_str ''b c'' @ [10] @ py_str ''d '')
     = [py_str ''a'', py_str ''b c'' @ [10] @ py_str ''d'']"
  "primary_split (py_str ''Hi there. How are you?! Fine'')
     = [py_str ''Hi there'', py_str ''How are you'', py_str ''Fine'']"
  by (simp_all add: seg_defs str_find.simps str_split.simps re_split_runs.simps)

lemma split_into_paragraphs_example:
  "split_into_paragraphs (py_str ''a'' @ [10] @ py_str ''b'')
     = [Paragraph 0 (py_str ''a''), Paragraph 1 (py_str ''b'')]"
  by (simp add: split_into_paragraphs_def refine_long_paragraph_def enumerate_simps seg_defs
      str_find.simps str_split.simps)

section \<open>Properties of the entity detection\<close>

lemma unavailable_recognizer_fails:
  assumes "\<not> stanza_initialized svc" and "\<not> shared_initialized sh"
    and "isl (pipeline_offline env)" and "isl (pipeline_after_download env)"
  shows "recognizer_fails env (svc, sh) txt"
  using assms
  by (auto simp: recognizer_fails_def ensure_initialized_def initialize_stanza_def Let_def isl_def
      split: sum.splits)

text \<open>
  Claim C8. When the recognizer is unavailable or raises, \<open>extract_entities\<close> returns
  a value, never an exception, and the value is the result of the regex fallback on
  the same text.
\<close>

theorem fallback_on_recognizer_failure:
  assumes "recognizer_fails env s txt"
  shows "fst (extract_entities env lower finditer s txt)
           = Inr (extract_entities_regex lower finditer txt)"
  using assms
  by (auto simp: extract_entities_def recognizer_fails_def Let_def isl_def
      split: option.splits sum.splits)

lemmas regex_defs = extract_entities_regex_def regex_matches_def example_finditer_def
  patterns_def common_words_def Entity_def slice_def py_str_def lower_latin_def
  lower_code_point_def

lemma example_regex_entities:
  "extract_entities_regex lower_latin example_finditer (py_str ''Alice met Bob'')
     = [Entity (py_str ''Alice met Bob'') (py_str ''PERSON'') 0 13]"
  "extract_entities_regex lower_latin example_finditer (py_str ''the 50%'')
     = [Entity (py_str ''50%'') (py_str ''PERCENT'') 4 7]"
  by (simp_all add: regex_defs)

theorem fallback_on_recognizer_failure_witness:
  "fst (extract_entities failing_env lower_latin example_finditer fresh_service
          (py_str ''Alice met Bob''))
     = Inr [Entity (py_str ''Alice met Bob'') (py_str ''PERSON'') 0 13]
   \<and> fst (extract_entities raising_env lower_latin example_finditer fresh_service
          (py_str ''the 50%''))
     = Inr [Entity (py_str ''50%'') (py_str ''PERCENT'') 4 7]"
proof -
  have a: "recognizer_fails failing_env fresh_service (py_str ''Alice met Bob'')"
    by (simp add: recognizer_fails_def ensure_initialized_def initialize_stanza_def
        failing_env_def fresh_service_def)
  have b: "recognizer_fails raising_env fresh_service (py_str ''the 50%'')"
    by (simp add: recognizer_fails_def ensure_initialized_def initialize_stanza_def
        raising_env_def fresh_service_def)
  show ?thesis
    using fallback_on_recognizer_failure [OF a, of lower_latin example_finditer]
      fallback_on_recognizer_failure [OF b, of lower_latin example_finditer]
    by (simp only: example_regex_entities)
qed

text \<open>
  The entities of the regex fallback satisfy offset validity whenever the spans the
  engine returns lie within the text, which \<open>re\<close> guarantees.
\<close>

lemma regex_entity_valid:
  assumes "\<forall>pattern. \<forall>(start, end) \<in> set (finditer pattern txt). start \<le> end \<and> end \<le> length txt"
    and "e \<in> set (extract_entities_regex lower finditer txt)"
  shows "valid_offsets txt e \<and> etext e = slice txt (nat (start_pos e)) (nat (end_pos e))"
  using assms
  by (fastforce simp: extract_entities_regex_def regex_matches_def valid_offsets_def Entity_def)

end
